theory Spec2Isabelle
  imports
    Main
    "HOL-Library.Char_ord"
    "HOL-Library.List_Lexorder"
    "HOL-Library.Product_Lexorder"
begin

section \<open>The history scanner of reno (reno/scanner.py)\<close>

text \<open>
  A shallow embedding of \<^verbatim>\<open>reno/scanner.py\<close>. Python \<^verbatim>\<open>str\<close> and \<^verbatim>\<open>bytes\<close> values
  are \<open>string\<close>s (the encodings \<^verbatim>\<open>decode('utf-8')\<close> and \<^verbatim>\<open>encode('ascii')\<close> are the
  identity on them), exceptions are values of \<open>error\<close> returned as \<open>Inl\<close>, dictionaries
  that are iterated are association lists in insertion order, and the loops are
  recursive functions.
\<close>

subsection \<open>Errors\<close>

datatype error =
  ValueError string
  | KeyError string
  | IndexError
  | AttributeError

subsection \<open>Path helpers of the Python library\<close>

text \<open>
  \<^verbatim>\<open>os.path.basename(p)\<close> is \<^verbatim>\<open>p[p.rfind('/') + 1:]\<close>: what follows the last slash.
\<close>

definition basename :: "string \<Rightarrow> string" where
  "basename p = rev (takeWhile (\<lambda>c. c \<noteq> CHR ''/'') (rev p))"

text \<open>
  \<^verbatim>\<open>os.path.splitext(p)\<close>: the extension starts at the last dot of the last path
  component, unless that component has only dots before it; then the extension is empty.
\<close>

definition splitext :: "string \<Rightarrow> string \<times> string" where
  "splitext p =
     (let name = basename p
      in if CHR ''.'' \<in> set name
         then (let ext = CHR ''.'' # rev (takeWhile (\<lambda>c. c \<noteq> CHR ''.'') (rev name));
                   root = take (length p - length ext) p;
                   stem = take (length name - length ext) name
               in if (\<exists>c \<in> set stem. c \<noteq> CHR ''.'') then (root, ext) else (p, []))
         else (p, []))"

text \<open>
  \<^verbatim>\<open>os.path.join(a, b)\<close> for two components: an absolute \<open>b\<close> replaces \<open>a\<close>; otherwise
  \<open>b\<close> is appended, after a slash unless \<open>a\<close> is empty or ends with one.
\<close>

definition os_path_join :: "string \<Rightarrow> string \<Rightarrow> string" where
  "os_path_join a b =
     (if b \<noteq> [] \<and> hd b = CHR ''/'' then b
      else if a = [] \<or> last a = CHR ''/'' then a @ b
      else a @ ''/'' @ b)"

text \<open>\<^verbatim>\<open>s.endswith(t)\<close>.\<close>

definition endswith :: "string \<Rightarrow> string \<Rightarrow> bool" where
  "endswith s t = (length t \<le> length s \<and> drop (length s - length t) s = t)"

text \<open>\<^verbatim>\<open>s.startswith(t)\<close>.\<close>

definition startswith :: "string \<Rightarrow> string \<Rightarrow> bool" where
  "startswith s t = (take (length t) s = t)"

subsection \<open>Note identifiers\<close>

text \<open>
  \<^verbatim>\<open>_get_unique_id(filename)\<close>: the last 16 characters of the file name without its
  extension (\<^verbatim>\<open>root[-16:]\<close>), or the first 16 (\<^verbatim>\<open>root[:16]\<close>) when those last 16
  contain a dash.
\<close>

definition get_unique_id :: "string \<Rightarrow> string" where
  "get_unique_id filename =
     (let base = basename filename;
          root = fst (splitext base);
          uniqueid = drop (length root - 16) root
      in if CHR ''-'' \<in> set uniqueid then take 16 root else uniqueid)"

text \<open>Sixteen lowercase hexadecimal digits, the identifier of the file name conventions.\<close>

definition is_hex16 :: "string \<Rightarrow> bool" where
  "is_hex16 h = (length h = 16 \<and> list_all (\<lambda>c. c \<in> set ''0123456789abcdef'') h)"

subsection \<open>Raw tree changes\<close>

text \<open>
  The change types of \<^verbatim>\<open>dulwich.diff_tree\<close>, and the part of a \<^verbatim>\<open>TreeChange\<close> the
  scanner reads: its type and the paths of its old and new tree entries (\<^verbatim>\<open>None\<close> on
  the side that does not exist).
\<close>

datatype change_type =
  CHANGE_ADD | CHANGE_MODIFY | CHANGE_DELETE | CHANGE_RENAME | CHANGE_COPY | CHANGE_UNCHANGED

type_synonym sha = string

record tree_change =
  c_type :: change_type
  old_path :: "string option"
  new_path :: "string option"

text \<open>
  An element of the list of changes is a \<^verbatim>\<open>TreeChange\<close>, or for a merge commit a list
  of them (\<^verbatim>\<open>isinstance(ec, list)\<close>).
\<close>

datatype change_entry = Single tree_change | Merged "tree_change list"

fun entry_changes :: "change_entry \<Rightarrow> tree_change list" where
  "entry_changes (Single c) = [c]"
| "entry_changes (Merged cs) = cs"

definition flatten_changes :: "change_entry list \<Rightarrow> tree_change list" where
  "flatten_changes changes = concat (map entry_changes changes)"

text \<open>
  \<^verbatim>\<open>_note_file(name)\<close>: a non-empty name matching \<^verbatim>\<open>*.yaml\<close>, that is, ending in
  \<^verbatim>\<open>.yaml\<close>.
\<close>

definition note_file :: "string option \<Rightarrow> bool" where
  "note_file name =
     (case name of None \<Rightarrow> False | Some n \<Rightarrow> n \<noteq> [] \<and> endswith n ''.yaml'')"

text \<open>\<^verbatim>\<open>p.decode('utf-8') if p else None\<close>: an absent or empty path is \<^verbatim>\<open>None\<close>.\<close>

definition decode_path :: "string option \<Rightarrow> string option" where
  "decode_path p = (case p of None \<Rightarrow> None | Some b \<Rightarrow> if b = [] then None else Some b)"

subsection \<open>Aggregated changes\<close>

text \<open>
  The tuples collected per identifier: \<^verbatim>\<open>(type, path)\<close> for a delete and
  \<^verbatim>\<open>(type, path, sha)\<close> for an add or a modification.
\<close>

datatype raw_change =
  Raw2 change_type string
  | Raw3 change_type string sha

fun raw_type :: "raw_change \<Rightarrow> change_type" where
  "raw_type (Raw2 t p) = t"
| "raw_type (Raw3 t p s) = t"

fun raw_path :: "raw_change \<Rightarrow> string" where
  "raw_path (Raw2 t p) = p"
| "raw_path (Raw3 t p s) = p"

text \<open>
  The tuples \<^verbatim>\<open>_aggregate_changes\<close> returns: \<^verbatim>\<open>(uid, type, path)\<close>,
  \<^verbatim>\<open>(uid, type, path, sha)\<close> and \<^verbatim>\<open>(uid, 'rename', old_path, new_path, sha)\<close>.
\<close>

datatype change =
  Change3 string change_type string
  | Change4 string change_type string sha
  | Change5 string change_type string string sha

fun change_uid :: "change \<Rightarrow> string" where
  "change_uid (Change3 u t p) = u"
| "change_uid (Change4 u t p s) = u"
| "change_uid (Change5 u t p q s) = u"

fun change_c_type :: "change \<Rightarrow> change_type" where
  "change_c_type (Change3 u t p) = t"
| "change_c_type (Change4 u t p s) = t"
| "change_c_type (Change5 u t p q s) = t"

text \<open>\<^verbatim>\<open>(uid,) + c\<close>.\<close>

fun prepend_uid :: "string \<Rightarrow> raw_change \<Rightarrow> change" where
  "prepend_uid u (Raw2 t p) = Change3 u t p"
| "prepend_uid u (Raw3 t p s) = Change4 u t p s"

text \<open>\<^verbatim>\<open>(uid, CHANGE_RENAME, deled[1]) + added[1:]\<close>.\<close>

fun rename_of :: "string \<Rightarrow> raw_change \<Rightarrow> raw_change \<Rightarrow> change" where
  "rename_of u deled (Raw3 t p s) = Change5 u CHANGE_RENAME (raw_path deled) p s"
| "rename_of u deled (Raw2 t p) = Change4 u CHANGE_RENAME (raw_path deled) p"

text \<open>
  \<^verbatim>\<open>by_uid[uid].append(x)\<close> on a \<^verbatim>\<open>defaultdict(list)\<close>: a new key goes to the end,
  an existing one keeps its place.
\<close>

fun dict_append :: "('k \<times> 'v list) list \<Rightarrow> 'k \<Rightarrow> 'v \<Rightarrow> ('k \<times> 'v list) list" where
  "dict_append [] k v = [(k, [v])]"
| "dict_append ((k', vs) # d) k v =
     (if k' = k then (k', vs @ [v]) # d else (k', vs) # dict_append d k v)"

text \<open>
  The body of the first loop of \<^verbatim>\<open>_aggregate_changes\<close> for one \<^verbatim>\<open>TreeChange\<close>: the
  changes of note files are filed under their identifier, other files are ignored, and a
  change that is no add, delete or modification raises.
\<close>

definition collect_change ::
  "sha \<Rightarrow> (string \<times> raw_change list) list \<Rightarrow> tree_change
    \<Rightarrow> error + (string \<times> raw_change list) list" where
  "collect_change sha by_uid c =
     (if c_type c = CHANGE_ADD then
        (let path = decode_path (new_path c)
         in if note_file path
            then Inr (dict_append by_uid (get_unique_id (the path))
                        (Raw3 (c_type c) (the path) sha))
            else Inr by_uid)
      else if c_type c = CHANGE_DELETE then
        (let path = decode_path (old_path c)
         in if note_file path
            then Inr (dict_append by_uid (get_unique_id (the path))
                        (Raw2 (c_type c) (the path)))
            else Inr by_uid)
      else if c_type c = CHANGE_MODIFY then
        (let path = decode_path (new_path c)
         in if note_file path
            then Inr (dict_append by_uid (get_unique_id (the path))
                        (Raw3 (c_type c) (the path) sha))
            else Inr by_uid)
      else Inl (ValueError ''unhandled change type''))"

fun collect_changes ::
  "sha \<Rightarrow> (string \<times> raw_change list) list \<Rightarrow> tree_change list
    \<Rightarrow> error + (string \<times> raw_change list) list" where
  "collect_changes sha by_uid [] = Inr by_uid"
| "collect_changes sha by_uid (c # cs) =
     (case collect_change sha by_uid c of
        Inl e \<Rightarrow> Inl e
      | Inr by_uid' \<Rightarrow> collect_changes sha by_uid' cs)"

text \<open>
  The body of the second loop for one identifier and its collected changes: a single
  change is passed on, an add with a delete is a rename, modifications stay
  modifications, anything else raises.
\<close>

definition aggregate_group ::
  "sha \<Rightarrow> string \<Rightarrow> raw_change list \<Rightarrow> error + change list" where
  "aggregate_group sha uid changes =
     (if length changes = 1 then Inr [prepend_uid uid (hd changes)]
      else
        (let types = set (map raw_type changes)
         in if types = {CHANGE_ADD, CHANGE_DELETE} then
              (case filter (\<lambda>c. raw_type c = CHANGE_ADD) changes of
                 [] \<Rightarrow> Inl IndexError
               | added # _ \<Rightarrow>
                   (case filter (\<lambda>c. raw_type c = CHANGE_DELETE) changes of
                      [] \<Rightarrow> Inl IndexError
                    | deled # _ \<Rightarrow> Inr [rename_of uid deled added]))
            else if types = {CHANGE_MODIFY} then
              Inr (map (\<lambda>c. Change4 uid CHANGE_MODIFY (raw_path c) sha) changes)
            else Inl (ValueError ''Unrecognized changes'')))"

fun aggregate_groups ::
  "sha \<Rightarrow> change list \<Rightarrow> (string \<times> raw_change list) list \<Rightarrow> error + change list" where
  "aggregate_groups sha results [] = Inr results"
| "aggregate_groups sha results ((uid, changes) # groups) =
     (case aggregate_group sha uid changes of
        Inl e \<Rightarrow> Inl e
      | Inr rs \<Rightarrow> aggregate_groups sha (results @ rs) groups)"

text \<open>
  \<^verbatim>\<open>_aggregate_changes(walk_entry, changes, notesdir)\<close>, with \<open>sha\<close> the identifier of
  the commit of the walk entry. The groups are visited in the order of
  \<^verbatim>\<open>sorted(by_uid.items())\<close>, that is, by identifier.
\<close>

definition aggregate_changes :: "sha \<Rightarrow> change_entry list \<Rightarrow> error + change list" where
  "aggregate_changes sha changes =
     (case collect_changes sha [] (flatten_changes changes) of
        Inl e \<Rightarrow> Inl e
      | Inr by_uid \<Rightarrow> aggregate_groups sha [] (sort_key fst by_uid))"

text \<open>
  The invariant of \<^verbatim>\<open>by_uid\<close> through the first loop: every identifier is filed once, and
  every three-element tuple carries the identifier of the commit.
\<close>

definition wf_by_uid :: "sha \<Rightarrow> (string \<times> raw_change list) list \<Rightarrow> bool" where
  "wf_by_uid sha d =
     (distinct (map fst d) \<and>
      (\<forall>(u, g) \<in> set d. \<forall>r \<in> set g. \<forall>t p s. r = Raw3 t p s \<longrightarrow> s = sha))"

subsection \<open>The repository\<close>

text \<open>
  What the scanner reads of a commit: its identifier (\<^verbatim>\<open>commit.id\<close>, the same as
  \<^verbatim>\<open>commit.sha().hexdigest()\<close>), its parents in order and its commit time.
\<close>

record commit =
  commit_id :: sha
  parents :: "sha list"
  commit_time :: int

text \<open>
  The objects of the store: an annotated or signed tag with its target
  (\<^verbatim>\<open>tag.object[1]\<close>) and its own time (\<^verbatim>\<open>tag.tag_time\<close>), a commit, or anything else (a
  tree or a blob).
\<close>

datatype obj =
  Tag sha int
  | Commit commit
  | Other

text \<open>
  The repository (\<^verbatim>\<open>dulwich.repo.Repo\<close>): the references in the order \<^verbatim>\<open>get_refs()\<close>
  lists them (\<^verbatim>\<open>HEAD\<close> is one of them), the object store, and the walker of the
  library, \<^verbatim>\<open>get_walker(head)\<close>, as the list of the commits of the entries it yields.
\<close>

record repo =
  refs :: "(string \<times> sha) list"
  objects :: "sha \<Rightarrow> obj option"
  get_walker :: "sha \<Rightarrow> commit list"

text \<open>\<^verbatim>\<open>repo[sha]\<close> raises \<^verbatim>\<open>KeyError\<close> for an unknown object.\<close>

definition repo_getitem :: "repo \<Rightarrow> sha \<Rightarrow> error + obj" where
  "repo_getitem r sha = (case objects r sha of None \<Rightarrow> Inl (KeyError sha) | Some ob \<Rightarrow> Inr ob)"

text \<open>\<^verbatim>\<open>s.partition(sep)[-1]\<close>: what follows the first occurrence of \<open>sep\<close>, or nothing.\<close>

fun partition_last :: "string \<Rightarrow> string \<Rightarrow> string" where
  "partition_last sep [] = []"
| "partition_last sep (c # s) =
     (if startswith (c # s) sep then drop (length sep) (c # s) else partition_last sep s)"

text \<open>\<^verbatim>\<open>s.rpartition('/')[-1]\<close>: what follows the last slash, or all of \<open>s\<close>.\<close>

definition rpartition_last :: "string \<Rightarrow> string" where
  "rpartition_last s = rev (takeWhile (\<lambda>c. c \<noteq> CHR ''/'') (rev s))"

text \<open>\<^verbatim>\<open>d[k] = v\<close> on a dictionary that keeps insertion order.\<close>

fun dict_set :: "('k \<times> 'v) list \<Rightarrow> 'k \<Rightarrow> 'v \<Rightarrow> ('k \<times> 'v) list" where
  "dict_set [] k v = [(k, v)]"
| "dict_set ((k', v') # d) k v = (if k' = k then (k', v) # d else (k', v') # dict_set d k v)"

text \<open>
  \<^verbatim>\<open>_all_tags\<close> of \<^verbatim>\<open>_load_tags\<close>: the references under \<^verbatim>\<open>refs/tags/\<close>, by tag name.
\<close>

fun all_tags_of :: "(string \<times> sha) list \<Rightarrow> (string \<times> sha) list \<Rightarrow> (string \<times> sha) list" where
  "all_tags_of acc [] = acc"
| "all_tags_of acc ((k, v) # rs) =
     (if startswith k ''refs/tags/''
      then all_tags_of (dict_set acc (partition_last ''/tags/'' k) v) rs
      else all_tags_of acc rs)"

definition all_tags :: "repo \<Rightarrow> (string \<times> sha) list" where
  "all_tags r = all_tags_of [] (refs r)"

text \<open>
  The loop of \<^verbatim>\<open>_load_tags\<close> that fills \<^verbatim>\<open>_shas_to_tags\<close>: every tag is filed with a date
  under the commit it marks. An annotated tag is filed under its target with the time of
  the tag object; a reference to a commit is filed under that commit with the time of the
  commit; any other object raises.
\<close>

fun load_tags_loop ::
  "repo \<Rightarrow> (sha \<times> (string \<times> int) list) list \<Rightarrow> (string \<times> sha) list
    \<Rightarrow> error + (sha \<times> (string \<times> int) list) list" where
  "load_tags_loop r shas_to_tags [] = Inr shas_to_tags"
| "load_tags_loop r shas_to_tags ((tag, tag_sha) # ts) =
     (case repo_getitem r tag_sha of
        Inl e \<Rightarrow> Inl e
      | Inr (Tag target tag_time) \<Rightarrow>
          load_tags_loop r (dict_append shas_to_tags target (tag, tag_time)) ts
      | Inr (Commit c) \<Rightarrow>
          load_tags_loop r (dict_append shas_to_tags (commit_id c) (tag, commit_time c)) ts
      | Inr Other \<Rightarrow> Inl (ValueError ''Unrecognized tag object''))"

definition load_tags :: "repo \<Rightarrow> error + (sha \<times> (string \<times> int) list) list" where
  "load_tags r = load_tags_loop r [] (all_tags r)"

text \<open>\<^verbatim>\<open>d.get(k, [])\<close>.\<close>

definition dict_get_list :: "('k \<times> 'v list) list \<Rightarrow> 'k \<Rightarrow> 'v list" where
  "dict_get_list d k = (case map_of d k of None \<Rightarrow> [] | Some vs \<Rightarrow> vs)"

text \<open>
  \<^verbatim>\<open>get_tags_on_commit(sha)\<close>: the tags filed under the commit, sorted by their date
  with the stable sort of the language, and then their names. \<open>tags_and_dates\<close> is the
  local variable of that name after the sort. The tags are loaded on the first call; the
  model is of a scan in which a failure to load them ends the scan.
\<close>

definition tags_and_dates :: "repo \<Rightarrow> sha \<Rightarrow> error + (string \<times> int) list" where
  "tags_and_dates r sha =
     (case load_tags r of
        Inl e \<Rightarrow> Inl e
      | Inr shas_to_tags \<Rightarrow> Inr (sort_key snd (dict_get_list shas_to_tags sha)))"

definition get_tags_on_commit :: "repo \<Rightarrow> sha \<Rightarrow> error + string list" where
  "get_tags_on_commit r sha =
     (case tags_and_dates r sha of Inl e \<Rightarrow> Inl e | Inr tds \<Rightarrow> Inr (map fst tds))"

subsection \<open>References, tags on a branch, current version, branch base\<close>

text \<open>\<^verbatim>\<open>key in refs\<close> and \<^verbatim>\<open>refs[key]\<close>.\<close>

definition refs_lookup :: "repo \<Rightarrow> string \<Rightarrow> sha option" where
  "refs_lookup r key = map_of (refs r) key"

text \<open>
  The loop of \<^verbatim>\<open>_get_ref\<close> over the candidate references: the first one that exists is
  resolved, through the tag object when it is an annotated tag.
\<close>

fun get_ref_candidates :: "repo \<Rightarrow> string \<Rightarrow> string list \<Rightarrow> error + sha" where
  "get_ref_candidates r name [] = Inl (ValueError ''Unknown reference'')"
| "get_ref_candidates r name (ref # cands) =
     (case refs_lookup r ref of
        None \<Rightarrow> get_ref_candidates r name cands
      | Some sha \<Rightarrow>
          (case repo_getitem r sha of
             Inl e \<Rightarrow> Inl e
           | Inr (Tag target tag_time) \<Rightarrow> Inr target
           | Inr _ \<Rightarrow> Inr sha))"

text \<open>
  \<^verbatim>\<open>_get_ref(name)\<close>; an absent or empty name is the current \<^verbatim>\<open>HEAD\<close>.
\<close>

definition get_ref :: "repo \<Rightarrow> string option \<Rightarrow> error + sha" where
  "get_ref r name =
     (if name \<noteq> None \<and> name \<noteq> Some []
      then get_ref_candidates r (the name)
             [''refs/heads/'' @ the name,
              ''refs/remotes/'' @ the name,
              ''refs/tags/'' @ the name,
              ''refs/tags/'' @ (rpartition_last (the name) @ ''-eol'')]
      else (case refs_lookup r ''HEAD'' of
              None \<Rightarrow> Inl (KeyError ''HEAD'')
            | Some sha \<Rightarrow> Inr sha))"

text \<open>\<^verbatim>\<open>_get_walker_for_branch(branch)\<close>.\<close>

definition get_walker_for_branch :: "repo \<Rightarrow> string option \<Rightarrow> error + commit list" where
  "get_walker_for_branch r branch =
     (case get_ref r branch of Inl e \<Rightarrow> Inl e | Inr branch_head \<Rightarrow> Inr (get_walker r branch_head))"

text \<open>\<^verbatim>\<open>_get_tags_on_branch(branch)\<close>: the tags of the commits of the walk, in its order.\<close>

fun tags_of_commits :: "repo \<Rightarrow> string list \<Rightarrow> commit list \<Rightarrow> error + string list" where
  "tags_of_commits r results [] = Inr results"
| "tags_of_commits r results (c # cs) =
     (case get_tags_on_commit r (commit_id c) of
        Inl e \<Rightarrow> Inl e
      | Inr tags \<Rightarrow> tags_of_commits r (results @ tags) cs)"

definition get_tags_on_branch :: "repo \<Rightarrow> string option \<Rightarrow> error + string list" where
  "get_tags_on_branch r branch =
     (case get_walker_for_branch r branch of
        Inl e \<Rightarrow> Inl e
      | Inr walk \<Rightarrow> tags_of_commits r [] walk)"

text \<open>\<^verbatim>\<open>'{}'.format(n)\<close> for a count: the decimal digits of \<open>n\<close>.\<close>

fun show_nat :: "nat \<Rightarrow> string" where
  "show_nat n =
     (if n < 10 then [char_of (48 + n)]
      else show_nat (n div 10) @ [char_of (48 + n mod 10)])"

text \<open>
  The loop of \<^verbatim>\<open>_get_current_version\<close>: from a commit, along the first parents, to the
  first commit that has a tag; a commit without parents ends the walk with
  \<^verbatim>\<open>'0.0.0'\<close>. The walk reads \<^verbatim>\<open>parents\<close> of commits only: an object of another kind is
  reported as \<^verbatim>\<open>AttributeError\<close>. The loop need not end on a store that is not a history,
  so its result is an option.
\<close>

partial_function (option) current_version_loop ::
  "repo \<Rightarrow> commit \<Rightarrow> nat \<Rightarrow> (error + string) option" where
  "current_version_loop r commit count =
     (case get_tags_on_commit r (commit_id commit) of
        Inl e \<Rightarrow> Some (Inl e)
      | Inr tags \<Rightarrow>
          if tags \<noteq> [] then
            Some (Inr (if count \<noteq> 0 then last tags @ ''-'' @ show_nat count else last tags))
          else
            (case parents commit of
               [] \<Rightarrow> Some (Inr ''0.0.0'')
             | p # _ \<Rightarrow>
                 (case repo_getitem r p of
                    Inl e \<Rightarrow> Some (Inl e)
                  | Inr (Commit c) \<Rightarrow> current_version_loop r c (count + 1)
                  | Inr _ \<Rightarrow> Some (Inl AttributeError))))"

text \<open>\<^verbatim>\<open>_get_current_version(branch)\<close>.\<close>

definition get_current_version :: "repo \<Rightarrow> string option \<Rightarrow> (error + string) option" where
  "get_current_version r branch =
     (case get_ref r branch of
        Inl e \<Rightarrow> Some (Inl e)
      | Inr sha \<Rightarrow>
          (case repo_getitem r sha of
             Inl e \<Rightarrow> Some (Inl e)
           | Inr (Commit c) \<Rightarrow> current_version_loop r c 0
           | Inr _ \<Rightarrow> Some (Inl AttributeError)))"

text \<open>
  The loop of \<^verbatim>\<open>_get_branch_base\<close> over the walk of the branch: at the first commit that
  is also a commit of \<^verbatim>\<open>master\<close> the result is \<^verbatim>\<open>tags[-1]\<close>, which raises
  \<^verbatim>\<open>IndexError\<close> on an empty list; \<^verbatim>\<open>None\<close> when there is no such commit.
\<close>

fun branch_base_loop :: "repo \<Rightarrow> sha set \<Rightarrow> commit list \<Rightarrow> error + string option" where
  "branch_base_loop r master_commits [] = Inr None"
| "branch_base_loop r master_commits (c # cs) =
     (if commit_id c \<in> master_commits then
        (case get_tags_on_commit r (commit_id c) of
           Inl e \<Rightarrow> Inl e
         | Inr tags \<Rightarrow> if tags = [] then Inl IndexError else Inr (Some (last tags)))
      else branch_base_loop r master_commits cs)"

text \<open>\<^verbatim>\<open>_get_branch_base(branch)\<close>.\<close>

definition get_branch_base :: "repo \<Rightarrow> string option \<Rightarrow> error + string option" where
  "get_branch_base r branch =
     (case get_walker_for_branch r (Some ''master'') of
        Inl e \<Rightarrow> Inl e
      | Inr master_walk \<Rightarrow>
          (case get_walker_for_branch r branch of
             Inl e \<Rightarrow> Inl e
           | Inr walk \<Rightarrow> branch_base_loop r (set (map commit_id master_walk)) walk))"

text \<open>
  A first-parent walk that meets no tag: \<open>c\<close> and the commits \<open>cs\<close> that follow it, each
  the first parent of the one before, none of them tagged, the last one without parents.
\<close>

fun untagged_first_parents :: "repo \<Rightarrow> commit \<Rightarrow> commit list \<Rightarrow> bool" where
  "untagged_first_parents r c [] =
     (get_tags_on_commit r (commit_id c) = Inr [] \<and> parents c = [])"
| "untagged_first_parents r c (c' # cs) =
     (get_tags_on_commit r (commit_id c) = Inr [] \<and> parents c \<noteq> [] \<and>
      repo_getitem r (hd (parents c)) = Inr (Commit c') \<and> untagged_first_parents r c' cs)"

text \<open>
  What one reference of \<^verbatim>\<open>_all_tags\<close> contributes to the list filed under the commit
  \<open>s\<close>.
\<close>

fun filed_under :: "repo \<Rightarrow> sha \<Rightarrow> string \<times> sha \<Rightarrow> (string \<times> int) list" where
  "filed_under r s (tag, tag_sha) =
     (case objects r tag_sha of
        Some (Tag target t) \<Rightarrow> if target = s then [(tag, t)] else []
      | Some (Commit c) \<Rightarrow> if commit_id c = s then [(tag, commit_time c)] else []
      | _ \<Rightarrow> [])"

subsection \<open>The topological traversal\<close>

text \<open>
  The first loop of \<^verbatim>\<open>_topo_traversal\<close>: \<^verbatim>\<open>all\<close> maps the identifier of every commit of
  the walk to its entry, and \<^verbatim>\<open>children\<close> maps a commit to the set of the commits of the
  walk that name it as a parent. \<open>children_of walk p\<close> is \<^verbatim>\<open>children.get(p, set())\<close>.
\<close>

definition all_entries :: "commit list \<Rightarrow> sha \<Rightarrow> commit option" where
  "all_entries walk = fold (\<lambda>e all. all(commit_id e \<mapsto> e)) walk Map.empty"

definition add_children :: "commit \<Rightarrow> (sha \<Rightarrow> sha set) \<Rightarrow> sha \<Rightarrow> sha set" where
  "add_children e children =
     fold (\<lambda>p ch. ch(p := insert (commit_id e) (ch p))) (parents e) children"

definition children_of :: "commit list \<Rightarrow> sha \<Rightarrow> sha set" where
  "children_of walk = fold add_children walk (\<lambda>p. {})"

text \<open>
  The parents of an emitted commit are put at the front of \<^verbatim>\<open>todo\<close> one after the other,
  unless already there.
\<close>

fun push_parents :: "sha list \<Rightarrow> sha list \<Rightarrow> sha list" where
  "push_parents [] todo = todo"
| "push_parents (p # ps) todo = push_parents ps (if p \<in> set todo then todo else p # todo)"

text \<open>
  The second loop of \<^verbatim>\<open>_topo_traversal\<close>. \<open>out\<close> holds the entries yielded so far, the
  last one first. The generator is lazy: the result is the list of the entries it yields
  and the error that ends it, if any, after them. The loop need not end on a graph with
  a cycle that the invariants of the walk exclude, so the result is an option.
\<close>

partial_function (option) topo_loop ::
  "(sha \<Rightarrow> commit option) \<Rightarrow> (sha \<Rightarrow> sha set) \<Rightarrow> sha list \<Rightarrow> sha set \<Rightarrow> commit list
    \<Rightarrow> (commit list \<times> error option) option" where
  "topo_loop all children todo emitted out =
     (case todo of
        [] \<Rightarrow> Some (rev out, None)
      | sha # rest \<Rightarrow>
          (case all sha of
             None \<Rightarrow> Some (rev out, Some (KeyError sha))
           | Some entry \<Rightarrow>
               (let unprocessed_children = {c \<in> children sha. c \<notin> emitted}
                in if unprocessed_children = {}
                   then topo_loop all children (push_parents (parents entry) rest)
                          (insert sha emitted) (entry # out)
                   else topo_loop all children rest emitted out)))"

text \<open>\<^verbatim>\<open>_topo_traversal(branch)\<close>.\<close>

definition topo_traversal ::
  "repo \<Rightarrow> string option \<Rightarrow> (commit list \<times> error option) option" where
  "topo_traversal r branch =
     (case get_ref r branch of
        Inl e \<Rightarrow> Some ([], Some e)
      | Inr head \<Rightarrow>
          topo_loop (all_entries (get_walker r head)) (children_of (get_walker r head))
            [head] {} [])"

text \<open>
  The commit graph the walker hands over: \<open>parent_rel\<close> relates a commit of the walk to
  each of its parents. The walk of a history lists every commit once, lists the head and
  the parents of every commit it lists, lists only commits that the head reaches, and
  has no cycle.
\<close>

definition parent_rel :: "commit list \<Rightarrow> (sha \<times> sha) set" where
  "parent_rel walk = {(commit_id e, p) | e p. e \<in> set walk \<and> p \<in> set (parents e)}"

definition walk_of_dag :: "sha \<Rightarrow> commit list \<Rightarrow> bool" where
  "walk_of_dag head walk =
     (distinct (map commit_id walk) \<and>
      head \<in> commit_id ` set walk \<and>
      (\<forall>e \<in> set walk. set (parents e) \<subseteq> commit_id ` set walk) \<and>
      (\<forall>e \<in> set walk. (head, commit_id e) \<in> (parent_rel walk)\<^sup>*) \<and>
      acyclic (parent_rel walk))"

text \<open>
  The invariant of the second loop: the emitted set is the set of the identifiers of the
  entries yielded, each yielded once and only after its children; the commits waiting
  are distinct commits of the walk, none of them emitted; a parent of a yielded commit is
  emitted, waiting, or has a child that is not emitted; and the head is emitted or
  waiting.
\<close>

fun children_first :: "(sha \<Rightarrow> sha set) \<Rightarrow> commit list \<Rightarrow> bool" where
  "children_first children [] = True"
| "children_first children (e # out) =
     (children (commit_id e) \<subseteq> commit_id ` set out \<and> children_first children out)"

definition topo_inv :: "sha \<Rightarrow> commit list \<Rightarrow> sha list \<Rightarrow> sha set \<Rightarrow> commit list \<Rightarrow> bool" where
  "topo_inv head walk todo emitted out =
     (emitted = commit_id ` set out \<and>
      distinct (map commit_id out) \<and>
      set out \<subseteq> set walk \<and>
      children_first (children_of walk) out \<and>
      distinct todo \<and>
      set todo \<subseteq> commit_id ` set walk \<and>
      set todo \<inter> emitted = {} \<and>
      (\<forall>e \<in> set out. \<forall>p \<in> set (parents e).
         p \<in> emitted \<or> p \<in> set todo \<or> \<not> children_of walk p \<subseteq> emitted) \<and>
      (head \<in> emitted \<or> head \<in> set todo))"

subsection \<open>Pre-release versions\<close>

text \<open>
  \<^verbatim>\<open>PRE_RELEASE_RE\<close> is \<^verbatim>\<open>\.(\d+(?:[ab]|rc)+\d*)$\<close>: a dot, then the group, made of one or
  more digits, one or more of the markers \<^verbatim>\<open>a\<close>, \<^verbatim>\<open>b\<close> and \<^verbatim>\<open>rc\<close>, and any number of
  digits, then the end of the string or the newline that ends it. The group has no dot,
  so a match starts at the last dot of the string. Characters are bytes: \<^verbatim>\<open>\d\<close> is an
  ASCII digit.
\<close>

definition is_digit :: "char \<Rightarrow> bool" where
  "is_digit c = (CHR ''0'' \<le> c \<and> c \<le> CHR ''9'')"

text \<open>What is left of a string after the markers at its start.\<close>

fun strip_markers :: "string \<Rightarrow> string" where
  "strip_markers [] = []"
| "strip_markers (c # s) =
     (if c = CHR ''a'' \<or> c = CHR ''b'' then strip_markers s
      else if c = CHR ''r'' \<and> s \<noteq> [] \<and> hd s = CHR ''c'' then strip_markers (tl s)
      else c # s)"

text \<open>A whole string that matches the group \<^verbatim>\<open>\d+(?:[ab]|rc)+\d*\<close>.\<close>

definition pre_release_group :: "string \<Rightarrow> bool" where
  "pre_release_group g =
     (let after_digits = dropWhile is_digit g;
          after_markers = strip_markers after_digits
      in takeWhile is_digit g \<noteq> [] \<and> after_markers \<noteq> after_digits \<and>
         list_all is_digit after_markers)"

text \<open>
  \<^verbatim>\<open>PRE_RELEASE_RE.search(s)\<close>, as the text of the group of the match
  (\<^verbatim>\<open>match.groups()[0]\<close>) or \<open>None\<close>.
\<close>

definition pre_release_search :: "string \<Rightarrow> string option" where
  "pre_release_search s =
     (if CHR ''.'' \<notin> set s then None
      else (let seg = rev (takeWhile (\<lambda>c. c \<noteq> CHR ''.'') (rev s))
            in if pre_release_group seg then Some seg
               else if seg \<noteq> [] \<and> last seg = CHR 0x0A \<and> pre_release_group (butlast seg)
               then Some (butlast seg)
               else None))"

text \<open>\<^verbatim>\<open>'.'.join(s.split('.')[:-1])\<close>: \<open>s\<close> up to its last dot, or nothing.\<close>

definition drop_last_component :: "string \<Rightarrow> string" where
  "drop_last_component s =
     (if CHR ''.'' \<in> set s then rev (tl (dropWhile (\<lambda>c. c \<noteq> CHR ''.'') (rev s))) else [])"

text \<open>\<^verbatim>\<open>s.rstrip('.')\<close>.\<close>

definition rstrip_dots :: "string \<Rightarrow> string" where
  "rstrip_dots s = rev (dropWhile (\<lambda>c. c = CHR ''.'') (rev s))"

text \<open>\<^verbatim>\<open>ov[:-len(pre_rel_str)].rstrip('.')\<close>, for a group that is not empty.\<close>

definition canonical_version :: "string \<Rightarrow> string \<Rightarrow> string" where
  "canonical_version ov pre_rel_str = rstrip_dots (take (length ov - length pre_rel_str) ov)"

subsection \<open>The scan\<close>

text \<open>The options of the configuration that \<^verbatim>\<open>get_notes_by_version\<close> reads.\<close>

record config =
  notespath :: string
  branch :: "string option"
  earliest_version :: "string option"
  collapse_pre_releases :: bool
  stop_at_branch_base :: bool

text \<open>The truth value of an optional string: \<^verbatim>\<open>None\<close> and \<^verbatim>\<open>''\<close> are false.\<close>

definition truthy :: "string option \<Rightarrow> bool" where
  "truthy s = (s \<noteq> None \<and> s \<noteq> Some [])"

text \<open>
  The variables of the loop over the commits: the current version, the versions seen,
  the earliest version seen of each identifier (an \<^verbatim>\<open>OrderedDict\<close>), the latest file
  name and commit of each identifier, and the identifiers that were deleted.
\<close>

record scan_state =
  current_version :: string
  versions :: "string list"
  earliest_seen :: "(string \<times> string) list"
  last_name_by_id :: "string \<Rightarrow> (string \<times> string) option"
  uniqueids_deleted :: "string set"

text \<open>
  \<^verbatim>\<open>path, sha = change[-2:]\<close>. In a tuple of three elements the last two are the type and
  the path, and \<^verbatim>\<open>sha.decode\<close> on the path raises.
\<close>

fun last_two :: "change \<Rightarrow> error + string \<times> string" where
  "last_two (Change3 u t p) = Inl AttributeError"
| "last_two (Change4 u t p s) = Inr (p, s)"
| "last_two (Change5 u t p q s) = Inr (q, s)"

text \<open>
  The branch shared by an add, a rename and a modification: the name is recorded unless
  one is recorded already.
\<close>

definition record_name :: "string \<Rightarrow> scan_state \<Rightarrow> change \<Rightarrow> error + scan_state" where
  "record_name notesdir st change =
     (if last_name_by_id st (change_uid change) = None then
        (case last_two change of
           Inl e \<Rightarrow> Inl e
         | Inr (path, sha) \<Rightarrow>
             Inr (st\<lparr>last_name_by_id :=
                     (last_name_by_id st)(change_uid change \<mapsto> (os_path_join notesdir path, sha))\<rparr>))
      else Inr st)"

text \<open>The body of the loop over the aggregated changes of a commit.\<close>

definition process_change :: "string \<Rightarrow> scan_state \<Rightarrow> change \<Rightarrow> error + scan_state" where
  "process_change notesdir st0 change =
     (let uniqueid = change_uid change;
          st = st0\<lparr>earliest_seen := dict_set (earliest_seen st0) uniqueid (current_version st0)\<rparr>;
          c_type = change_c_type change
      in if uniqueid \<in> uniqueids_deleted st then Inr st
         else if c_type = CHANGE_ADD then record_name notesdir st change
         else if c_type = CHANGE_DELETE then
           (if last_name_by_id st uniqueid = None
            then Inr (st\<lparr>uniqueids_deleted := insert uniqueid (uniqueids_deleted st)\<rparr>)
            else Inr st)
         else if c_type = CHANGE_RENAME then record_name notesdir st change
         else if c_type = CHANGE_MODIFY then record_name notesdir st change
         else Inl (ValueError ''unknown change instructions''))"

fun process_changes :: "string \<Rightarrow> scan_state \<Rightarrow> change list \<Rightarrow> error + scan_state" where
  "process_changes notesdir st [] = Inr st"
| "process_changes notesdir st (c # cs) =
     (case process_change notesdir st c of
        Inl e \<Rightarrow> Inl e
      | Inr st' \<Rightarrow> process_changes notesdir st' cs)"

text \<open>
  The body of the loop over the commits of the traversal, for one commit. \<open>changes_of\<close>
  stands for \<^verbatim>\<open>_changes_in_subdir\<close>, the tree changes of the commit below the notes
  directory as the library computes them. The result is the new state and whether the
  loop stops at this commit.
\<close>

definition process_commit ::
  "repo \<Rightarrow> (sha \<Rightarrow> change_entry list) \<Rightarrow> string \<Rightarrow> string option \<Rightarrow> scan_state \<Rightarrow> commit
    \<Rightarrow> error + scan_state \<times> bool" where
  "process_commit r changes_of notesdir branch_base_tag st0 entry =
     (let sha = commit_id entry
      in case get_tags_on_commit r sha of
           Inl e \<Rightarrow> Inl e
         | Inr tags_on_commit \<Rightarrow>
             (let tags = (if tags_on_commit = [] then [current_version st0] else tags_on_commit);
                  st1 = (if tags_on_commit = [] then st0
                         else st0\<lparr>current_version := last tags_on_commit\<rparr>);
                  st2 = (if current_version st1 \<notin> set (versions st1)
                         then st1\<lparr>versions := versions st1 @ [current_version st1]\<rparr>
                         else st1)
              in case aggregate_changes sha (changes_of sha) of
                   Inl e \<Rightarrow> Inl e
                 | Inr changes \<Rightarrow>
                     (case process_changes notesdir st2 changes of
                        Inl e \<Rightarrow> Inl e
                      | Inr st3 \<Rightarrow>
                          Inr (st3, truthy branch_base_tag \<and> the branch_base_tag \<in> set tags))))"

text \<open>
  The loop over the entries the traversal yields; \<open>err\<close> is the error that ends the
  traversal, raised when the loop asks for an entry after the last one yielded. The result
  is the state after the loop and whether the loop was left by \<^verbatim>\<open>break\<close>.
\<close>

fun scan_commits ::
  "repo \<Rightarrow> (sha \<Rightarrow> change_entry list) \<Rightarrow> string \<Rightarrow> string option \<Rightarrow> error option
    \<Rightarrow> scan_state \<Rightarrow> commit list \<Rightarrow> error + scan_state \<times> bool" where
  "scan_commits r changes_of notesdir branch_base_tag err st [] =
     (case err of None \<Rightarrow> Inr (st, False) | Some e \<Rightarrow> Inl e)"
| "scan_commits r changes_of notesdir branch_base_tag err st (entry # entries) =
     (case process_commit r changes_of notesdir branch_base_tag st entry of
        Inl e \<Rightarrow> Inl e
      | Inr (st', stop) \<Rightarrow>
          if stop then Inr (st', True)
          else scan_commits r changes_of notesdir branch_base_tag err st' entries)"

text \<open>The variables before the loop.\<close>

definition initial_state :: "string \<Rightarrow> scan_state" where
  "initial_state current =
     \<lparr>current_version = current, versions = [], earliest_seen = [],
      last_name_by_id = Map.empty, uniqueids_deleted = {}\<rparr>"

text \<open>
  The inversion of \<^verbatim>\<open>earliest_seen\<close>: every version seen gets a list, and the file of
  every identifier that has one goes to the list of its earliest version. A
  \<^verbatim>\<open>KeyError\<close>, from either dictionary, skips the identifier.
\<close>

fun invert_earliest ::
  "(string \<Rightarrow> (string \<times> string) option) \<Rightarrow> (string \<times> (string \<times> string) list) list
    \<Rightarrow> (string \<times> string) list \<Rightarrow> (string \<times> (string \<times> string) list) list" where
  "invert_earliest last_name files_and_tags [] = files_and_tags"
| "invert_earliest last_name files_and_tags ((uniqueid, version) # es) =
     (case last_name uniqueid of
        None \<Rightarrow> invert_earliest last_name files_and_tags es
      | Some (base, sha) \<Rightarrow>
          if version \<in> set (map fst files_and_tags)
          then invert_earliest last_name (dict_append files_and_tags version (base, sha)) es
          else invert_earliest last_name files_and_tags es)"

definition files_and_tags_of :: "scan_state \<Rightarrow> (string \<times> (string \<times> string) list) list" where
  "files_and_tags_of st =
     invert_earliest (last_name_by_id st)
       (fold (\<lambda>v d. dict_set d v []) (versions st) []) (earliest_seen st)"

text \<open>
  The loop that combines the pre-releases: the list of a version that has one goes to
  the list of its canonical version, which for a pre-release is the version without the
  pre-release part when that is one of \<^verbatim>\<open>versions_by_date\<close>, and the version itself
  otherwise.
\<close>

definition canonical_ver :: "string list \<Rightarrow> string \<Rightarrow> string" where
  "canonical_ver versions_by_date ov =
     (case pre_release_search ov of
        Some pre_rel_str \<Rightarrow>
          if canonical_version ov pre_rel_str \<notin> set versions_by_date then ov
          else canonical_version ov pre_rel_str
      | None \<Rightarrow> ov)"

text \<open>\<^verbatim>\<open>d[k].extend(vs)\<close> after \<^verbatim>\<open>if k not in d: d[k] = []\<close>.\<close>

fun dict_extend :: "('k \<times> 'v list) list \<Rightarrow> 'k \<Rightarrow> 'v list \<Rightarrow> ('k \<times> 'v list) list" where
  "dict_extend [] k vs = [(k, vs)]"
| "dict_extend ((k', vs') # d) k vs =
     (if k' = k then (k', vs' @ vs) # d else (k', vs') # dict_extend d k vs)"

fun collapse_loop ::
  "string list \<Rightarrow> (string \<times> (string \<times> string) list) list
    \<Rightarrow> (string \<times> (string \<times> string) list) list \<Rightarrow> string list
    \<Rightarrow> (string \<times> (string \<times> string) list) list" where
  "collapse_loop versions_by_date collapsing files_and_tags [] = files_and_tags"
| "collapse_loop versions_by_date collapsing files_and_tags (ov # ovs) =
     (case map_of collapsing ov of
        None \<Rightarrow> collapse_loop versions_by_date collapsing files_and_tags ovs
      | Some notes \<Rightarrow>
          collapse_loop versions_by_date collapsing
            (dict_extend files_and_tags (canonical_ver versions_by_date ov) notes) ovs)"

definition collapse ::
  "string list \<Rightarrow> (string \<times> (string \<times> string) list) list
    \<Rightarrow> (string \<times> (string \<times> string) list) list" where
  "collapse versions_by_date collapsing =
     collapse_loop versions_by_date collapsing [] versions_by_date"

text \<open>
  The last loop: the versions that have notes, in the order of \<^verbatim>\<open>versions_by_date\<close>,
  each with \<^verbatim>\<open>sorted(files_and_tags[ov])\<close>, the pairs of a file name and a commit in the
  order of pairs of strings; the loop stops after the earliest version when that has
  notes.
\<close>

fun trim_loop ::
  "string option \<Rightarrow> (string \<times> (string \<times> string) list) list
    \<Rightarrow> (string \<times> (string \<times> string) list) list \<Rightarrow> string list
    \<Rightarrow> (string \<times> (string \<times> string) list) list" where
  "trim_loop earliest files_and_tags trimmed [] = trimmed"
| "trim_loop earliest files_and_tags trimmed (ov # ovs) =
     (if dict_get_list files_and_tags ov = [] then trim_loop earliest files_and_tags trimmed ovs
      else (let trimmed' = dict_set trimmed ov (sort (dict_get_list files_and_tags ov))
            in if truthy earliest \<and> ov = the earliest then trimmed'
               else trim_loop earliest files_and_tags trimmed' ovs))"

text \<open>
  What \<^verbatim>\<open>get_notes_by_version\<close> does after the inversion: the pre-releases are combined
  when the configuration asks for it, and the last loop makes the result.
\<close>

definition post_process ::
  "bool \<Rightarrow> string option \<Rightarrow> string list \<Rightarrow> scan_state
    \<Rightarrow> (string \<times> (string \<times> string) list) list" where
  "post_process collapsing earliest versions_by_date st =
     trim_loop earliest
       (if collapsing then collapse versions_by_date (files_and_tags_of st)
        else files_and_tags_of st)
       [] versions_by_date"

text \<open>
  \<^verbatim>\<open>get_notes_by_version()\<close>. The result is \<open>None\<close> when the first-parent walk or the
  traversal does not end.
\<close>

definition get_notes_by_version ::
  "repo \<Rightarrow> config \<Rightarrow> (sha \<Rightarrow> change_entry list)
    \<Rightarrow> (error + (string \<times> (string \<times> string) list) list) option" where
  "get_notes_by_version r conf changes_of =
     (case get_tags_on_branch r (branch conf) of
        Inl e \<Rightarrow> Some (Inl e)
      | Inr versions_by_date0 \<Rightarrow>
          if truthy (earliest_version conf) \<and>
             the (earliest_version conf) \<notin> set versions_by_date0
          then Some (Inl (ValueError ''earliest-version set to unknown revision''))
          else
            (case (if stop_at_branch_base conf \<and> \<not> truthy (earliest_version conf) \<and>
                      truthy (branch conf) \<and> branch conf \<noteq> Some ''master''
                   then (case get_branch_base r (branch conf) of
                           Inl e \<Rightarrow> Inl e
                         | Inr base \<Rightarrow>
                             Inr (if truthy base \<and> collapse_pre_releases conf \<and>
                                     pre_release_search (the base) \<noteq> None
                                  then Some (drop_last_component (the base)) else base,
                                  base))
                   else Inr (earliest_version conf, earliest_version conf)) of
               Inl e \<Rightarrow> Some (Inl e)
             | Inr (earliest, branch_base_tag) \<Rightarrow>
                 (case get_current_version r (branch conf) of
                    None \<Rightarrow> None
                  | Some (Inl e) \<Rightarrow> Some (Inl e)
                  | Some (Inr current) \<Rightarrow>
                      (let versions_by_date =
                             (if current \<notin> set versions_by_date0
                              then current # versions_by_date0 else versions_by_date0)
                       in case topo_traversal r (branch conf) of
                            None \<Rightarrow> None
                          | Some (entries, err) \<Rightarrow>
                              (case scan_commits r changes_of (notespath conf) branch_base_tag
                                      err (initial_state current) entries of
                                 Inl e \<Rightarrow> Some (Inl e)
                               | Inr (st, stopped) \<Rightarrow>
                                   Some (Inr (post_process (collapse_pre_releases conf)
                                                earliest versions_by_date st)))))))"

subsection \<open>Invariants of the scan\<close>





subsection \<open>The order of the notes of a version\<close>

text \<open>
  The order that the comment above \<^verbatim>\<open>sorted(files_and_tags[ov])\<close> describes, and the
  specification with it: the pairs of a file and a commit are in the order of the
  identifiers of the files.
\<close>

definition sorted_by_identifier :: "(string \<times> string) list \<Rightarrow> bool" where
  "sorted_by_identifier bucket = sorted (map (\<lambda>(base, sha). get_unique_id base) bucket)"

subsection \<open>Example repositories\<close>

text \<open>
  One commit of time 100 that carries two tags: the annotated tag \<^verbatim>\<open>1.0.0\<close>, whose tag
  object was made at time 300, and the lightweight tag \<^verbatim>\<open>1.0.1\<close>.
\<close>

definition repo_two_tags :: repo where
  "repo_two_tags =
     \<lparr>refs = [(''HEAD'', ''c1''), (''refs/heads/master'', ''c1''),
              (''refs/tags/1.0.0'', ''t1''), (''refs/tags/1.0.1'', ''c1'')],
      objects = map_of
        [(''c1'', Commit \<lparr>commit_id = ''c1'', parents = [], commit_time = 100\<rparr>),
         (''t1'', Tag ''c1'' 300)],
      get_walker = (\<lambda>h. if h = ''c1''
        then [\<lparr>commit_id = ''c1'', parents = [], commit_time = 100\<rparr>] else [])\<rparr>"

text \<open>
  A merge \<open>m\<close> of the untagged root \<open>a\<close> (first parent) with the commit \<open>b\<close> that carries
  the tag \<^verbatim>\<open>1.0.0\<close>.
\<close>

definition repo_side_tag :: repo where
  "repo_side_tag =
     \<lparr>refs = [(''HEAD'', ''m''), (''refs/heads/master'', ''m''),
              (''refs/tags/1.0.0'', ''b'')],
      objects = map_of
        [(''m'', Commit \<lparr>commit_id = ''m'', parents = [''a'', ''b''], commit_time = 30\<rparr>),
         (''a'', Commit \<lparr>commit_id = ''a'', parents = [], commit_time = 10\<rparr>),
         (''b'', Commit \<lparr>commit_id = ''b'', parents = [''a''], commit_time = 20\<rparr>)],
      get_walker = (\<lambda>h. if h = ''m''
        then [\<lparr>commit_id = ''m'', parents = [''a'', ''b''], commit_time = 30\<rparr>,
              \<lparr>commit_id = ''b'', parents = [''a''], commit_time = 20\<rparr>,
              \<lparr>commit_id = ''a'', parents = [], commit_time = 10\<rparr>] else [])\<rparr>"

text \<open>
  The branch \<^verbatim>\<open>stable\<close> (head \<open>s1\<close>) leaves \<^verbatim>\<open>master\<close> (head \<open>m2\<close>) at the commit
  \<open>m1\<close>, which has no tag.
\<close>

definition repo_untagged_base :: repo where
  "repo_untagged_base =
     \<lparr>refs = [(''HEAD'', ''m2''), (''refs/heads/master'', ''m2''),
              (''refs/heads/stable'', ''s1'')],
      objects = map_of
        [(''m1'', Commit \<lparr>commit_id = ''m1'', parents = [], commit_time = 10\<rparr>),
         (''m2'', Commit \<lparr>commit_id = ''m2'', parents = [''m1''], commit_time = 20\<rparr>),
         (''s1'', Commit \<lparr>commit_id = ''s1'', parents = [''m1''], commit_time = 30\<rparr>)],
      get_walker = (\<lambda>h.
        if h = ''m2''
        then [\<lparr>commit_id = ''m2'', parents = [''m1''], commit_time = 20\<rparr>,
              \<lparr>commit_id = ''m1'', parents = [], commit_time = 10\<rparr>]
        else if h = ''s1''
        then [\<lparr>commit_id = ''s1'', parents = [''m1''], commit_time = 30\<rparr>,
              \<lparr>commit_id = ''m1'', parents = [], commit_time = 10\<rparr>]
        else [])\<rparr>"

text \<open>
  The history of the comment of \<^verbatim>\<open>_topo_traversal\<close>: the merge \<open>d\<close> of the mainline
  \<open>c\<close>, \<open>b\<close> with the branch \<open>x\<close>, both starting at \<open>a\<close>. The walker of the library
  lists the commits by date.
\<close>

definition merge_walk :: "commit list" where
  "merge_walk =
     [\<lparr>commit_id = ''d'', parents = [''c'', ''x''], commit_time = 50\<rparr>,
      \<lparr>commit_id = ''c'', parents = [''b''], commit_time = 40\<rparr>,
      \<lparr>commit_id = ''x'', parents = [''a''], commit_time = 30\<rparr>,
      \<lparr>commit_id = ''b'', parents = [''a''], commit_time = 20\<rparr>,
      \<lparr>commit_id = ''a'', parents = [], commit_time = 10\<rparr>]"

definition repo_merge :: repo where
  "repo_merge =
     \<lparr>refs = [(''HEAD'', ''d''), (''refs/heads/master'', ''d'')],
      objects = map_of (map (\<lambda>c. (commit_id c, Commit c)) merge_walk),
      get_walker = (\<lambda>h. if h = ''d'' then merge_walk else [])\<rparr>"


text \<open>The default configuration: the notes directory, the current branch.\<close>

definition conf_default :: config where
  "conf_default =
     \<lparr>notespath = ''releasenotes/notes'', branch = None, earliest_version = None,
      collapse_pre_releases = True, stop_at_branch_base = True\<rparr>"

text \<open>
  One commit with the tag \<^verbatim>\<open>1.0.0\<close> that adds two notes; the note whose name comes
  first has the identifier that comes last. \<open>two_notes_final\<close> is the state of the scan
  after its loop.
\<close>

definition two_notes_walk :: "commit list" where
  "two_notes_walk = [\<lparr>commit_id = ''c1'', parents = [], commit_time = 10\<rparr>]"

definition repo_two_notes :: repo where
  "repo_two_notes =
     \<lparr>refs = [(''HEAD'', ''c1''), (''refs/heads/master'', ''c1''),
              (''refs/tags/1.0.0'', ''c1'')],
      objects = map_of (map (\<lambda>c. (commit_id c, Commit c)) two_notes_walk),
      get_walker = (\<lambda>h. if h = ''c1'' then two_notes_walk else [])\<rparr>"

definition changes_two_notes :: "sha \<Rightarrow> change_entry list" where
  "changes_two_notes sha =
     (if sha = ''c1''
      then [Single \<lparr>c_type = CHANGE_ADD, old_path = None,
                     new_path = Some ''b-0000000000000001.yaml''\<rparr>,
            Single \<lparr>c_type = CHANGE_ADD, old_path = None,
                     new_path = Some ''a-0000000000000002.yaml''\<rparr>]
      else [])"

definition two_notes_final :: scan_state where
  "two_notes_final =
     \<lparr>current_version = ''1.0.0'', versions = [''1.0.0''],
      earliest_seen = [(''0000000000000001'', ''1.0.0''), (''0000000000000002'', ''1.0.0'')],
      last_name_by_id =
        [''0000000000000001'' \<mapsto> (''releasenotes/notes/b-0000000000000001.yaml'', ''c1''),
         ''0000000000000002'' \<mapsto> (''releasenotes/notes/a-0000000000000002.yaml'', ''c1'')],
      uniqueids_deleted = {}\<rparr>"







section \<open>Properties\<close>

subsection \<open>Path helpers\<close>

lemma takeWhile_all: "\<forall>x \<in> set xs. P x \<Longrightarrow> takeWhile P xs = xs"
  by (induction xs) auto

lemma basename_no_slash: "CHR ''/'' \<notin> set p \<Longrightarrow> basename p = p"
proof -
  assume "CHR ''/'' \<notin> set p"
  then have "takeWhile (\<lambda>c. c \<noteq> CHR ''/'') (rev p) = rev p"
    by (intro takeWhile_all) auto
  then show ?thesis unfolding basename_def by (simp only: rev_rev_ident)
qed

lemma basename_append_slash:
  "CHR ''/'' \<notin> set b \<Longrightarrow> basename (a @ CHR ''/'' # b) = b"
proof -
  assume "CHR ''/'' \<notin> set b"
  then have 1: "takeWhile (\<lambda>c. c \<noteq> CHR ''/'') (rev b) = rev b"
    by (intro takeWhile_all) auto
  have 2: "rev (a @ CHR ''/'' # b) = rev b @ CHR ''/'' # rev a"
    by simp
  have 3: "takeWhile (\<lambda>c. c \<noteq> CHR ''/'') (rev b @ CHR ''/'' # rev a)
      = takeWhile (\<lambda>c. c \<noteq> CHR ''/'') (rev b)"
    by (rule takeWhile_tail) simp
  show ?thesis unfolding basename_def 2 3 1 by (simp only: rev_rev_ident)
qed

lemma splitext_yaml:
  assumes "CHR ''/'' \<notin> set r" and "\<exists>c \<in> set r. c \<noteq> CHR ''.''"
  shows "splitext (r @ ''.yaml'') = (r, ''.yaml'')"
proof -
  have b: "basename (r @ ''.yaml'') = r @ ''.yaml''"
    using assms(1) by (intro basename_no_slash) simp
  have t: "rev (takeWhile (\<lambda>c. c \<noteq> CHR ''.'') (rev (r @ ''.yaml''))) = ''yaml''"
    by simp
  show ?thesis
    unfolding splitext_def b Let_def t using assms(2) by simp
qed

lemma hex16_member:
  "is_hex16 h \<Longrightarrow> c \<in> set h \<Longrightarrow> c \<in> set ''0123456789abcdef''"
  unfolding is_hex16_def list_all_iff by blast

lemma hex16_chars:
  assumes "is_hex16 h"
  shows "length h = 16" and "CHR ''-'' \<notin> set h" and "CHR ''/'' \<notin> set h"
    and "CHR ''.'' \<notin> set h"
proof -
  show "length h = 16" using assms unfolding is_hex16_def by blast
  have a: "CHR ''-'' \<notin> set ''0123456789abcdef''" by simp
  have b: "CHR ''/'' \<notin> set ''0123456789abcdef''" by simp
  have c: "CHR ''.'' \<notin> set ''0123456789abcdef''" by simp
  show "CHR ''-'' \<notin> set h" using hex16_member [OF assms] a by blast
  show "CHR ''/'' \<notin> set h" using hex16_member [OF assms] b by blast
  show "CHR ''.'' \<notin> set h" using hex16_member [OF assms] c by blast
qed

subsection \<open>Note identifiers\<close>

lemma basename_append:
  assumes "CHR ''/'' \<notin> set b"
  shows "basename (a @ b) = basename a @ b"
proof -
  have "takeWhile (\<lambda>c. c \<noteq> CHR ''/'') (rev b @ rev a)
      = rev b @ takeWhile (\<lambda>c. c \<noteq> CHR ''/'') (rev a)"
    using assms by (intro takeWhile_append2) auto
  then show ?thesis unfolding basename_def by simp
qed

lemma basename_nslash: "CHR ''/'' \<notin> set (basename p)"
proof
  assume "CHR ''/'' \<in> set (basename p)"
  then have "CHR ''/'' \<in> set (takeWhile (\<lambda>c. c \<noteq> CHR ''/'') (rev p))"
    unfolding basename_def by simp
  then show False by (auto dest: set_takeWhileD)
qed

lemma basename_dir:
  assumes "d = [] \<or> last d = CHR ''/''" and "CHR ''/'' \<notin> set b"
  shows "basename (d @ b) = b"
proof (cases "d = []")
  case True
  then show ?thesis using assms(2) by (simp add: basename_no_slash)
next
  case False
  with assms(1) have "butlast d @ [CHR ''/''] = d"
    by (metis append_butlast_last_id)
  then have "d @ b = butlast d @ CHR ''/'' # b"
    by (metis append.assoc append_Cons append_Nil)
  then show ?thesis using basename_append_slash [OF assms(2), of "butlast d"]
    by (simp only:)
qed

lemma get_unique_id_root:
  assumes "CHR ''/'' \<notin> set r" and "\<exists>c \<in> set r. c \<noteq> CHR ''.''"
  shows "get_unique_id (r @ ''.yaml'') =
     (if CHR ''-'' \<in> set (drop (length r - 16) r) then take 16 r
      else drop (length r - 16) r)"
proof -
  have b: "basename (r @ ''.yaml'') = r @ ''.yaml''"
    using assms(1) by (intro basename_no_slash) simp
  show ?thesis
    unfolding get_unique_id_def b splitext_yaml [OF assms] Let_def by simp
qed

lemma get_unique_id_basename: "get_unique_id p = get_unique_id (basename p)"
proof -
  have "basename (basename p) = basename p"
    by (rule basename_no_slash) (rule basename_nslash)
  then show ?thesis unfolding get_unique_id_def by simp
qed

lemma get_unique_id_modern:
  assumes "is_hex16 h"
  shows "get_unique_id (slug @ ''-'' @ h @ ''.yaml'') = h"
proof -
  note hx = hex16_chars [OF assms]
  define r where "r = basename slug @ ''-'' @ h"
  have "CHR ''/'' \<notin> set (''-'' @ h @ ''.yaml'')" using hx(3) by simp
  then have "basename (slug @ ''-'' @ h @ ''.yaml'') = basename slug @ ''-'' @ h @ ''.yaml''"
    by (rule basename_append)
  then have b: "basename (slug @ ''-'' @ h @ ''.yaml'') = r @ ''.yaml''"
    by (simp add: r_def)
  have r1: "CHR ''/'' \<notin> set r" using hx(3) basename_nslash [of slug] by (simp add: r_def)
  have r2: "\<exists>c \<in> set r. c \<noteq> CHR ''.''" by (simp add: r_def)
  have d: "drop (length r - 16) r = h" using hx(1) by (simp add: r_def)
  have "get_unique_id (slug @ ''-'' @ h @ ''.yaml'') = get_unique_id (r @ ''.yaml'')"
    using get_unique_id_basename [of "slug @ ''-'' @ h @ ''.yaml''"] b
      get_unique_id_basename [of "r @ ''.yaml''"] basename_no_slash [of "r @ ''.yaml''"] r1
    by simp
  then show ?thesis
    unfolding get_unique_id_root [OF r1 r2] d using hx(2) by simp
qed

lemma get_unique_id_legacy:
  assumes "is_hex16 h" and "CHR ''/'' \<notin> set slug" and "d = [] \<or> last d = CHR ''/''"
  shows "get_unique_id (d @ h @ ''-'' @ slug @ ''.yaml'') =
     (if length slug < 16 \<or> CHR ''-'' \<in> set (drop (length slug - 16) slug) then h
      else drop (length slug - 16) slug)"
proof -
  note hx = hex16_chars [OF assms(1)]
  define r where "r = h @ ''-'' @ slug"
  have r1: "CHR ''/'' \<notin> set r" using hx(3) assms(2) by (simp add: r_def)
  have r2: "\<exists>c \<in> set r. c \<noteq> CHR ''.''" by (simp add: r_def)
  have "CHR ''/'' \<notin> set (r @ ''.yaml'')" using r1 by simp
  from basename_dir [OF assms(3) this]
  have b: "basename (d @ h @ ''-'' @ slug @ ''.yaml'') = r @ ''.yaml''"
    by (simp add: r_def)
  have g: "get_unique_id (d @ h @ ''-'' @ slug @ ''.yaml'') = get_unique_id (r @ ''.yaml'')"
    using get_unique_id_basename [of "d @ h @ ''-'' @ slug @ ''.yaml''"] b
      get_unique_id_basename [of "r @ ''.yaml''"] basename_no_slash [of "r @ ''.yaml''"] r1
    by simp
  have t: "take 16 r = h" using hx(1) by (simp add: r_def)
  have dr: "drop (length r - 16) r =
      (if length slug < 16 then drop (Suc (length slug)) h @ ''-'' @ slug
       else drop (length slug - 16) slug)"
  proof (cases "length slug < 16")
    case True
    then show ?thesis using hx(1) by (simp add: r_def)
  next
    case False
    then have "length slug - 15 = Suc (length slug - 16)" by arith
    then show ?thesis using hx(1) False by (simp add: r_def)
  qed
  show ?thesis
    unfolding g get_unique_id_root [OF r1 r2] t dr using hx(2) by auto
qed

text \<open>
  C8 (as amended). For a modern file name \<open><slug>-<16 lowercase hex digits>.yaml\<close> the
  identifier is the 16-digit suffix, whatever the slug. For a legacy file name
  \<open><16 lowercase hex digits>-<slug>.yaml\<close> (in any directory) the identifier is the
  16-digit prefix when the slug is shorter than 16 characters or has a dash among its
  last 16 characters; otherwise the suffix rule wins and the identifier is the last 16
  characters of the slug.
\<close>

theorem get_unique_id_conventions:
  assumes "is_hex16 h"
  shows "get_unique_id (slug @ ''-'' @ h @ ''.yaml'') = h \<and>
    (CHR ''/'' \<notin> set lslug \<and> (d = [] \<or> last d = CHR ''/'') \<longrightarrow>
       get_unique_id (d @ h @ ''-'' @ lslug @ ''.yaml'') =
         (if length lslug < 16 \<or> CHR ''-'' \<in> set (drop (length lslug - 16) lslug) then h
          else drop (length lslug - 16) lslug))"
  using get_unique_id_modern [OF assms] get_unique_id_legacy [OF assms] by blast

theorem get_unique_id_conventions_witness:
  "is_hex16 ''0000000000000001'' \<and>
   get_unique_id ''releasenotes/notes/slug1-0000000000000001.yaml'' = ''0000000000000001'' \<and>
   get_unique_id ''releasenotes/notes/0000000000000001-slug1.yaml'' = ''0000000000000001''"
proof -
  have h: "is_hex16 ''0000000000000001''" by (simp add: is_hex16_def)
  show ?thesis
    using h get_unique_id_conventions [OF h, of "''releasenotes/notes/slug1''" "''slug1''"
        "''releasenotes/notes/''"]
    by simp
qed

text \<open>
  A legacy file name whose slug has 16 or more characters after its last dash: the
  identifier extracted is the tail of the slug, not the 16-digit prefix.
\<close>

theorem get_unique_id_legacy_counterexample:
  "is_hex16 ''0000000000000001'' \<and>
   get_unique_id ''0000000000000001-releasenotesforfeature.yaml'' = ''enotesforfeature'' \<and>
   get_unique_id ''0000000000000001-releasenotesforfeature.yaml'' \<noteq> ''0000000000000001''"
  by (simp add: is_hex16_def get_unique_id_def basename_def splitext_def)

subsection \<open>Aggregation of the changes of a commit\<close>

lemma dict_append_keys:
  "map fst (dict_append d k v) = (if k \<in> set (map fst d) then map fst d else map fst d @ [k])"
  by (induction d k v rule: dict_append.induct) auto

lemma dict_append_distinct:
  "distinct (map fst d) \<Longrightarrow> distinct (map fst (dict_append d k v))"
  by (simp add: dict_append_keys)

lemma collect_change_cases:
  "collect_change sha d c = Inl (ValueError ''unhandled change type'')
   \<or> collect_change sha d c = Inr d
   \<or> (\<exists>u r. collect_change sha d c = Inr (dict_append d u r) \<and>
        (\<forall>t p s. r = Raw3 t p s \<longrightarrow> s = sha))"
  unfolding collect_change_def Let_def by auto

lemma collect_change_unhandled:
  "c_type c \<notin> {CHANGE_ADD, CHANGE_DELETE, CHANGE_MODIFY} \<Longrightarrow>
   collect_change sha d c = Inl (ValueError ''unhandled change type'')"
  unfolding collect_change_def by simp

lemma collect_change_error:
  "collect_change sha d c = Inl e \<Longrightarrow> e = ValueError ''unhandled change type''"
  using collect_change_cases [of sha d c] by auto

lemma collect_changes_error:
  "collect_changes sha d cs = Inl e \<Longrightarrow> e = ValueError ''unhandled change type''"
proof (induction cs arbitrary: d)
  case Nil
  then show ?case by simp
next
  case (Cons c cs)
  then show ?case
    by (cases "collect_change sha d c") (auto dest: collect_change_error)
qed

lemma collect_changes_unhandled:
  "\<exists>c \<in> set cs. c_type c \<notin> {CHANGE_ADD, CHANGE_DELETE, CHANGE_MODIFY} \<Longrightarrow>
   collect_changes sha d cs = Inl (ValueError ''unhandled change type'')"
proof (induction cs arbitrary: d)
  case Nil
  then show ?case by simp
next
  case (Cons c cs)
  show ?case
  proof (cases "collect_change sha d c")
    case (Inl e)
    then show ?thesis using collect_change_error [OF Inl] by simp
  next
    case (Inr d')
    have "c_type c \<in> {CHANGE_ADD, CHANGE_DELETE, CHANGE_MODIFY}"
    proof (rule ccontr)
      assume "c_type c \<notin> {CHANGE_ADD, CHANGE_DELETE, CHANGE_MODIFY}"
      from collect_change_unhandled [OF this, of sha d] Inr show False by simp
    qed
    with Cons.prems have "\<exists>c \<in> set cs. c_type c \<notin> {CHANGE_ADD, CHANGE_DELETE, CHANGE_MODIFY}"
      by auto
    from Cons.IH [OF this] Inr show ?thesis by simp
  qed
qed

lemma dict_append_set:
  "(u, g) \<in> set (dict_append d k v) \<Longrightarrow>
   (u, g) \<in> set d \<or> (u = k \<and> (g = [v] \<or> (\<exists>g'. (u, g') \<in> set d \<and> g = g' @ [v])))"
  by (induction d k v rule: dict_append.induct) (auto split: if_splits)

lemma wf_by_uid_append:
  assumes "wf_by_uid sha d" and "\<forall>t p s. r = Raw3 t p s \<longrightarrow> s = sha"
  shows "wf_by_uid sha (dict_append d u r)"
proof -
  have "distinct (map fst (dict_append d u r))"
    using assms(1) by (simp add: wf_by_uid_def dict_append_distinct)
  moreover have "\<forall>(u', g) \<in> set (dict_append d u r). \<forall>x \<in> set g. \<forall>t p s. x = Raw3 t p s \<longrightarrow> s = sha"
  proof (clarify)
    fix u' g t p s
    assume m: "(u', g) \<in> set (dict_append d u r)" and x: "Raw3 t p s \<in> set g"
    from dict_append_set [OF m] show "s = sha"
      using assms x unfolding wf_by_uid_def by fastforce
  qed
  ultimately show ?thesis unfolding wf_by_uid_def by blast
qed

lemma collect_changes_wf:
  "wf_by_uid sha d \<Longrightarrow> collect_changes sha d cs = Inr d' \<Longrightarrow> wf_by_uid sha d'"
proof (induction cs arbitrary: d)
  case Nil
  then show ?case by simp
next
  case (Cons c cs)
  from Cons.prems(2) obtain d1 where d1: "collect_change sha d c = Inr d1"
    and rest: "collect_changes sha d1 cs = Inr d'"
    by (cases "collect_change sha d c") auto
  have "wf_by_uid sha d1"
    using collect_change_cases [of sha d c] d1 Cons.prems(1) wf_by_uid_append by auto
  from Cons.IH [OF this rest] show ?case .
qed

lemma wf_by_uid_Nil: "wf_by_uid sha []"
  by (simp add: wf_by_uid_def)

lemma aggregate_group_error:
  "aggregate_group sha u g = Inl e \<Longrightarrow> e = ValueError ''Unrecognized changes''"
proof -
  assume a: "aggregate_group sha u g = Inl e"
  show ?thesis
  proof (cases "set (map raw_type g) = {CHANGE_ADD, CHANGE_DELETE}")
    case True
    then have "CHANGE_ADD \<in> raw_type ` set g" and "CHANGE_DELETE \<in> raw_type ` set g"
      by auto
    then have "filter (\<lambda>c. raw_type c = CHANGE_ADD) g \<noteq> []"
      and "filter (\<lambda>c. raw_type c = CHANGE_DELETE) g \<noteq> []"
      by (auto simp: filter_empty_conv intro: sym)
    then show ?thesis using a True
      unfolding aggregate_group_def Let_def
      by (auto split: if_splits list.splits)
  next
    case False
    then show ?thesis using a
      unfolding aggregate_group_def Let_def
      by (auto split: if_splits)
  qed
qed

lemma aggregate_group_unrecognized:
  assumes "length g \<noteq> 1" and "set (map raw_type g) \<noteq> {CHANGE_ADD, CHANGE_DELETE}"
    and "set (map raw_type g) \<noteq> {CHANGE_MODIFY}"
  shows "aggregate_group sha u g = Inl (ValueError ''Unrecognized changes'')"
  using assms unfolding aggregate_group_def Let_def by simp

lemma aggregate_group_uid:
  "aggregate_group sha u g = Inr rs \<Longrightarrow> r \<in> set rs \<Longrightarrow> change_uid r = u"
proof -
  have p: "change_uid (prepend_uid u x) = u" for x by (cases x) simp_all
  have q: "change_uid (rename_of u x y) = u" for x y by (cases y) simp_all
  assume "aggregate_group sha u g = Inr rs" and "r \<in> set rs"
  then show ?thesis
    unfolding aggregate_group_def Let_def
    by (auto split: if_splits list.splits simp: p q)
qed

lemma aggregate_groups_error:
  "aggregate_groups sha rs gs = Inl e \<Longrightarrow> e = ValueError ''Unrecognized changes''"
proof (induction gs arbitrary: rs)
  case Nil
  then show ?case by simp
next
  case (Cons a gs)
  obtain u g where a: "a = (u, g)" by (cases a)
  show ?case using Cons a
    by (cases "aggregate_group sha u g") (auto dest: aggregate_group_error)
qed

lemma aggregate_groups_fail:
  "(u, g) \<in> set gs \<Longrightarrow> aggregate_group sha u g = Inl e \<Longrightarrow>
   \<exists>e'. aggregate_groups sha rs gs = Inl e'"
proof (induction gs arbitrary: rs)
  case Nil
  then show ?case by simp
next
  case (Cons a gs)
  obtain u' g' where a: "a = (u', g')" by (cases a)
  show ?case
  proof (cases "aggregate_group sha u' g'")
    case (Inl x)
    then show ?thesis using a by simp
  next
    case (Inr x)
    with Cons.prems a have "(u, g) \<in> set gs" by auto
    from Cons.IH [OF this Cons.prems(2)] Inr a show ?thesis by simp
  qed
qed

lemma aggregate_groups_filter:
  assumes "aggregate_groups sha rs gs = Inr out" and "distinct (map fst gs)"
    and "(u, g) \<in> set gs" and "aggregate_group sha u g = Inr r"
  shows "filter (\<lambda>x. change_uid x = u) out = filter (\<lambda>x. change_uid x = u) rs @ r"
  using assms
proof (induction gs arbitrary: rs)
  case Nil
  then show ?case by simp
next
  case (Cons a gs)
  obtain u' g' where a: "a = (u', g')" by (cases a)
  from Cons.prems(1) a obtain r' where r': "aggregate_group sha u' g' = Inr r'"
    and rest: "aggregate_groups sha (rs @ r') gs = Inr out"
    by (cases "aggregate_group sha u' g'") auto
  show ?case
  proof (cases "(u, g) \<in> set gs")
    case True
    then have "u \<in> set (map fst gs)" by force
    with Cons.prems(2) a have ne: "u' \<noteq> u" by auto
    have "filter (\<lambda>x. change_uid x = u) r' = []"
      using aggregate_group_uid [OF r'] ne by (auto simp: filter_empty_conv)
    moreover from Cons.prems(2) have "distinct (map fst gs)" by simp
    from Cons.IH [OF rest this True Cons.prems(4)]
    have "filter (\<lambda>x. change_uid x = u) out = filter (\<lambda>x. change_uid x = u) (rs @ r') @ r" .
    ultimately show ?thesis by simp
  next
    case False
    with Cons.prems(3) a have eq: "u' = u" "g' = g" by auto
    with r' Cons.prems(4) have rr: "r' = r" by simp
    have nin: "u \<notin> set (map fst gs)" using Cons.prems(2) a eq by simp
    have "filter (\<lambda>x. change_uid x = u) out = filter (\<lambda>x. change_uid x = u) (rs @ r')"
      using rest nin
    proof (induction gs arbitrary: rs r' out)
      case Nil
      then show ?case by simp
    next
      case (Cons b gs)
      obtain ub gb where b: "b = (ub, gb)" by (cases b)
      from Cons.prems(1) b obtain rb where rb: "aggregate_group sha ub gb = Inr rb"
        and rest': "aggregate_groups sha ((rs @ r') @ rb) gs = Inr out"
        by (cases "aggregate_group sha ub gb") auto
      from Cons.prems(2) b have "ub \<noteq> u" and nin': "u \<notin> set (map fst gs)" by auto
      then have e: "filter (\<lambda>x. change_uid x = u) rb = []"
        using aggregate_group_uid [OF rb] by (auto simp: filter_empty_conv)
      from Cons.IH [OF rest' nin']
      have "filter (\<lambda>x. change_uid x = u) out = filter (\<lambda>x. change_uid x = u) ((rs @ r') @ rb)" .
      with e show ?case by simp
    qed
    moreover have "filter (\<lambda>x. change_uid x = u) r = r"
      using aggregate_group_uid [OF Cons.prems(4)] by (auto simp: filter_id_conv)
    ultimately show ?thesis using rr by simp
  qed
qed

lemma sorted_groups_distinct:
  "distinct (map fst d) \<Longrightarrow> distinct (map fst (sort_key fst d))"
  by (simp add: distinct_map)

lemma aggregate_group_rename:
  assumes "g = [Raw3 CHANGE_ADD new s, Raw2 CHANGE_DELETE old]
         \<or> g = [Raw2 CHANGE_DELETE old, Raw3 CHANGE_ADD new s]"
  shows "aggregate_group sha u g = Inr [Change5 u CHANGE_RENAME old new s]"
  using assms unfolding aggregate_group_def Let_def by auto

lemma aggregate_groups_Inl_ex:
  "aggregate_groups sha rs gs = Inl e \<Longrightarrow>
   \<exists>u g. (u, g) \<in> set gs \<and> aggregate_group sha u g = Inl e"
proof (induction gs arbitrary: rs)
  case Nil
  then show ?case by simp
next
  case (Cons a gs)
  obtain u g where a: "a = (u, g)" by (cases a)
  show ?case
  proof (cases "aggregate_group sha u g")
    case (Inl x)
    with Cons.prems a have "x = e" by simp
    with Inl a show ?thesis by auto
  next
    case (Inr x)
    with Cons.prems a have "aggregate_groups sha (rs @ x) gs = Inl e" by simp
    from Cons.IH [OF this] show ?thesis by auto
  qed
qed

lemma aggregate_group_Inl_iff:
  "(\<exists>e. aggregate_group sha u g = Inl e) \<longleftrightarrow>
   (length g \<noteq> 1 \<and> set (map raw_type g) \<noteq> {CHANGE_ADD, CHANGE_DELETE} \<and>
    set (map raw_type g) \<noteq> {CHANGE_MODIFY})"
proof
  assume "\<exists>e. aggregate_group sha u g = Inl e"
  then obtain e where a: "aggregate_group sha u g = Inl e" ..
  show "length g \<noteq> 1 \<and> set (map raw_type g) \<noteq> {CHANGE_ADD, CHANGE_DELETE} \<and>
    set (map raw_type g) \<noteq> {CHANGE_MODIFY}"
  proof (cases "set (map raw_type g) = {CHANGE_ADD, CHANGE_DELETE}")
    case True
    then have "CHANGE_ADD \<in> raw_type ` set g" and "CHANGE_DELETE \<in> raw_type ` set g"
      by auto
    then have "filter (\<lambda>c. raw_type c = CHANGE_ADD) g \<noteq> []"
      and "filter (\<lambda>c. raw_type c = CHANGE_DELETE) g \<noteq> []"
      by (auto simp: filter_empty_conv intro: sym)
    then show ?thesis using a True
      unfolding aggregate_group_def Let_def
      by (auto split: if_splits list.splits)
  next
    case False
    then show ?thesis using a
      unfolding aggregate_group_def Let_def
      by (auto split: if_splits)
  qed
next
  assume "length g \<noteq> 1 \<and> set (map raw_type g) \<noteq> {CHANGE_ADD, CHANGE_DELETE} \<and>
    set (map raw_type g) \<noteq> {CHANGE_MODIFY}"
  then show "\<exists>e. aggregate_group sha u g = Inl e"
    using aggregate_group_unrecognized [of g sha u] by simp
qed

text \<open>
  C5. A group of \<^verbatim>\<open>by_uid\<close> made of exactly one add and one delete (in either order) of
  one identifier is reported as one rename: the old path is the path of the delete, the
  new path is the path of the add and the commit is the commit of the add, which is the
  commit of the walk entry; no other change is reported for that identifier. This holds
  when every group of the commit is a single change, adds and deletes, or modifications
  only. When the group of some identifier is none of these, \<^verbatim>\<open>_aggregate_changes\<close> raises
  \<^verbatim>\<open>ValueError\<close> and reports nothing, the rename included.
\<close>

theorem aggregate_changes_rename:
  assumes "collect_changes sha [] (flatten_changes changes) = Inr by_uid"
    and "(uid, grp) \<in> set by_uid"
    and "grp = [Raw3 CHANGE_ADD new s, Raw2 CHANGE_DELETE old]
       \<or> grp = [Raw2 CHANGE_DELETE old, Raw3 CHANGE_ADD new s]"
  shows "s = sha \<and>
    (if \<exists>(u, g) \<in> set by_uid. length g \<noteq> 1 \<and>
          set (map raw_type g) \<noteq> {CHANGE_ADD, CHANGE_DELETE} \<and>
          set (map raw_type g) \<noteq> {CHANGE_MODIFY}
     then aggregate_changes sha changes = Inl (ValueError ''Unrecognized changes'')
     else (\<exists>results. aggregate_changes sha changes = Inr results \<and>
        filter (\<lambda>r. change_uid r = uid) results = [Change5 uid CHANGE_RENAME old new s]))"
proof -
  let ?bad = "\<lambda>g. length g \<noteq> 1 \<and> set (map raw_type g) \<noteq> {CHANGE_ADD, CHANGE_DELETE} \<and>
          set (map raw_type g) \<noteq> {CHANGE_MODIFY}"
  have wf: "wf_by_uid sha by_uid"
    using collect_changes_wf [OF wf_by_uid_Nil assms(1)] .
  have "Raw3 CHANGE_ADD new s \<in> set grp" using assms(3) by auto
  with wf assms(2) have s: "s = sha" unfolding wf_by_uid_def by blast
  have d: "distinct (map fst (sort_key fst by_uid))"
    using wf by (simp add: wf_by_uid_def sorted_groups_distinct)
  have m: "(uid, grp) \<in> set (sort_key fst by_uid)" using assms(2) by simp
  have g: "aggregate_group sha uid grp = Inr [Change5 uid CHANGE_RENAME old new s]"
    using aggregate_group_rename [OF assms(3)] .
  have ac: "aggregate_changes sha changes = aggregate_groups sha [] (sort_key fst by_uid)"
    using assms(1) by (simp add: aggregate_changes_def)
  show ?thesis
  proof (cases "\<exists>(u, g) \<in> set by_uid. ?bad g")
    case True
    then obtain u g' where ug: "(u, g') \<in> set by_uid" and b: "?bad g'" by blast
    from b have f: "aggregate_group sha u g' = Inl (ValueError ''Unrecognized changes'')"
      by (intro aggregate_group_unrecognized) simp_all
    from ug have "(u, g') \<in> set (sort_key fst by_uid)" by simp
    from aggregate_groups_fail [OF this f]
    obtain e where e: "aggregate_groups sha [] (sort_key fst by_uid) = Inl e" by blast
    from aggregate_groups_error [OF e] e ac True s show ?thesis by simp
  next
    case False
    show ?thesis
    proof (cases "aggregate_groups sha [] (sort_key fst by_uid)")
      case (Inl e)
      from aggregate_groups_Inl_ex [OF Inl] obtain u g'
        where ug: "(u, g') \<in> set by_uid" and f: "aggregate_group sha u g' = Inl e"
        by auto
      from f have "?bad g'" using aggregate_group_Inl_iff [of sha u g'] by blast
      with ug False show ?thesis by blast
    next
      case (Inr out)
      from aggregate_groups_filter [OF Inr d m g]
      have "filter (\<lambda>r. change_uid r = uid) out = [Change5 uid CHANGE_RENAME old new s]"
        by simp
      then show ?thesis using Inr ac s False by simp
    qed
  qed
qed

lemma rename_example_collect:
  "collect_changes ''commit-id'' []
     (flatten_changes
       [Single \<lparr>c_type = CHANGE_ADD, old_path = None,
                 new_path = Some ''prefix/new-0000000000000001.yaml''\<rparr>,
        Single \<lparr>c_type = CHANGE_DELETE,
                 old_path = Some ''prefix/old-0000000000000001.yaml'', new_path = None\<rparr>])
   = Inr [(''0000000000000001'',
           [Raw3 CHANGE_ADD ''prefix/new-0000000000000001.yaml'' ''commit-id'',
            Raw2 CHANGE_DELETE ''prefix/old-0000000000000001.yaml''])]"
  by (simp add: flatten_changes_def collect_change_def decode_path_def note_file_def
      endswith_def get_unique_id_def basename_def splitext_def)

lemma rename_example_bad_collect:
  "collect_changes ''commit-id'' []
     (flatten_changes
       [Single \<lparr>c_type = CHANGE_ADD, old_path = None,
                 new_path = Some ''new-0000000000000001.yaml''\<rparr>,
        Single \<lparr>c_type = CHANGE_DELETE,
                 old_path = Some ''old-0000000000000001.yaml'', new_path = None\<rparr>,
        Single \<lparr>c_type = CHANGE_ADD, old_path = None,
                 new_path = Some ''a-0000000000000002.yaml''\<rparr>,
        Single \<lparr>c_type = CHANGE_ADD, old_path = None,
                 new_path = Some ''b-0000000000000002.yaml''\<rparr>])
   = Inr [(''0000000000000001'',
           [Raw3 CHANGE_ADD ''new-0000000000000001.yaml'' ''commit-id'',
            Raw2 CHANGE_DELETE ''old-0000000000000001.yaml'']),
          (''0000000000000002'',
           [Raw3 CHANGE_ADD ''a-0000000000000002.yaml'' ''commit-id'',
            Raw3 CHANGE_ADD ''b-0000000000000002.yaml'' ''commit-id''])]"
  by (simp add: flatten_changes_def collect_change_def decode_path_def note_file_def
      endswith_def get_unique_id_def basename_def splitext_def)

theorem aggregate_changes_rename_witness:
  "aggregate_changes ''commit-id''
     [Single \<lparr>c_type = CHANGE_ADD, old_path = None,
               new_path = Some ''prefix/new-0000000000000001.yaml''\<rparr>,
      Single \<lparr>c_type = CHANGE_DELETE,
               old_path = Some ''prefix/old-0000000000000001.yaml'', new_path = None\<rparr>]
   = Inr [Change5 ''0000000000000001'' CHANGE_RENAME ''prefix/old-0000000000000001.yaml''
            ''prefix/new-0000000000000001.yaml'' ''commit-id''] \<and>
   aggregate_changes ''commit-id''
       [Single \<lparr>c_type = CHANGE_ADD, old_path = None,
                 new_path = Some ''new-0000000000000001.yaml''\<rparr>,
        Single \<lparr>c_type = CHANGE_DELETE,
                 old_path = Some ''old-0000000000000001.yaml'', new_path = None\<rparr>,
        Single \<lparr>c_type = CHANGE_ADD, old_path = None,
                 new_path = Some ''a-0000000000000002.yaml''\<rparr>,
        Single \<lparr>c_type = CHANGE_ADD, old_path = None,
                 new_path = Some ''b-0000000000000002.yaml''\<rparr>]
   = Inl (ValueError ''Unrecognized changes'')"
proof -
  let ?grp = "[Raw3 CHANGE_ADD ''prefix/new-0000000000000001.yaml'' ''commit-id'',
               Raw2 CHANGE_DELETE ''prefix/old-0000000000000001.yaml'']"
  have m: "(''0000000000000001'', ?grp) \<in> set [(''0000000000000001'', ?grp)]" by simp
  have g: "?grp = [Raw3 CHANGE_ADD ''prefix/new-0000000000000001.yaml'' ''commit-id'',
                   Raw2 CHANGE_DELETE ''prefix/old-0000000000000001.yaml'']
         \<or> ?grp = [Raw2 CHANGE_DELETE ''prefix/old-0000000000000001.yaml'',
                   Raw3 CHANGE_ADD ''prefix/new-0000000000000001.yaml'' ''commit-id'']"
    by simp
  let ?grp1 = "[Raw3 CHANGE_ADD ''new-0000000000000001.yaml'' ''commit-id'',
               Raw2 CHANGE_DELETE ''old-0000000000000001.yaml'']"
  let ?grp2 = "[Raw3 CHANGE_ADD ''a-0000000000000002.yaml'' ''commit-id'',
               Raw3 CHANGE_ADD ''b-0000000000000002.yaml'' ''commit-id'']"
  have m1: "(''0000000000000001'', ?grp1) \<in>
      set [(''0000000000000001'', ?grp1), (''0000000000000002'', ?grp2)]" by simp
  have g1: "?grp1 = [Raw3 CHANGE_ADD ''new-0000000000000001.yaml'' ''commit-id'',
                   Raw2 CHANGE_DELETE ''old-0000000000000001.yaml'']
         \<or> ?grp1 = [Raw2 CHANGE_DELETE ''old-0000000000000001.yaml'',
                   Raw3 CHANGE_ADD ''new-0000000000000001.yaml'' ''commit-id'']"
    by simp
  have a: "aggregate_changes ''commit-id''
     [Single \<lparr>c_type = CHANGE_ADD, old_path = None,
               new_path = Some ''prefix/new-0000000000000001.yaml''\<rparr>,
      Single \<lparr>c_type = CHANGE_DELETE,
               old_path = Some ''prefix/old-0000000000000001.yaml'', new_path = None\<rparr>]
   = Inr [Change5 ''0000000000000001'' CHANGE_RENAME ''prefix/old-0000000000000001.yaml''
            ''prefix/new-0000000000000001.yaml'' ''commit-id'']"
    using aggregate_changes_rename [OF rename_example_collect m g]
    by (simp add: aggregate_changes_def rename_example_collect aggregate_group_def)
  have b: "aggregate_changes ''commit-id''
       [Single \<lparr>c_type = CHANGE_ADD, old_path = None,
                 new_path = Some ''new-0000000000000001.yaml''\<rparr>,
        Single \<lparr>c_type = CHANGE_DELETE,
                 old_path = Some ''old-0000000000000001.yaml'', new_path = None\<rparr>,
        Single \<lparr>c_type = CHANGE_ADD, old_path = None,
                 new_path = Some ''a-0000000000000002.yaml''\<rparr>,
        Single \<lparr>c_type = CHANGE_ADD, old_path = None,
                 new_path = Some ''b-0000000000000002.yaml''\<rparr>]
   = Inl (ValueError ''Unrecognized changes'')"
    using aggregate_changes_rename [OF rename_example_bad_collect m1 g1]
    by simp
  from a b show ?thesis ..
qed

text \<open>
  The changes of one commit that rename the note of one identifier and add two files of
  another: the group of the first identifier is one add and one delete, and the call
  raises for the second.
\<close>

theorem aggregate_changes_rename_other_group_counterexample:
  "collect_changes ''commit-id'' []
     (flatten_changes
       [Single \<lparr>c_type = CHANGE_ADD, old_path = None,
                 new_path = Some ''new-0000000000000001.yaml''\<rparr>,
        Single \<lparr>c_type = CHANGE_DELETE,
                 old_path = Some ''old-0000000000000001.yaml'', new_path = None\<rparr>,
        Single \<lparr>c_type = CHANGE_ADD, old_path = None,
                 new_path = Some ''a-0000000000000002.yaml''\<rparr>,
        Single \<lparr>c_type = CHANGE_ADD, old_path = None,
                 new_path = Some ''b-0000000000000002.yaml''\<rparr>])
   = Inr [(''0000000000000001'',
           [Raw3 CHANGE_ADD ''new-0000000000000001.yaml'' ''commit-id'',
            Raw2 CHANGE_DELETE ''old-0000000000000001.yaml'']),
          (''0000000000000002'',
           [Raw3 CHANGE_ADD ''a-0000000000000002.yaml'' ''commit-id'',
            Raw3 CHANGE_ADD ''b-0000000000000002.yaml'' ''commit-id''])] \<and>
   aggregate_changes ''commit-id''
       [Single \<lparr>c_type = CHANGE_ADD, old_path = None,
                 new_path = Some ''new-0000000000000001.yaml''\<rparr>,
        Single \<lparr>c_type = CHANGE_DELETE,
                 old_path = Some ''old-0000000000000001.yaml'', new_path = None\<rparr>,
        Single \<lparr>c_type = CHANGE_ADD, old_path = None,
                 new_path = Some ''a-0000000000000002.yaml''\<rparr>,
        Single \<lparr>c_type = CHANGE_ADD, old_path = None,
                 new_path = Some ''b-0000000000000002.yaml''\<rparr>]
   = Inl (ValueError ''Unrecognized changes'')"
  by (simp add: aggregate_changes_def rename_example_bad_collect aggregate_group_def)

text \<open>
  C9. A raw change whose type is not add, delete or modify makes
  \<^verbatim>\<open>_aggregate_changes\<close> raise, and so does a group of \<^verbatim>\<open>by_uid\<close> that is not a single
  change, whose types are not exactly add and delete, and whose types are not only
  modify; in both cases no change record is returned.
\<close>

theorem aggregate_changes_fails_fast:
  "((\<exists>c \<in> set (flatten_changes changes).
        c_type c \<notin> {CHANGE_ADD, CHANGE_DELETE, CHANGE_MODIFY}) \<longrightarrow>
      aggregate_changes sha changes = Inl (ValueError ''unhandled change type'')) \<and>
   (collect_changes sha [] (flatten_changes changes) = Inr by_uid \<and>
    (uid, grp) \<in> set by_uid \<and> length grp \<noteq> 1 \<and>
    set (map raw_type grp) \<noteq> {CHANGE_ADD, CHANGE_DELETE} \<and>
    set (map raw_type grp) \<noteq> {CHANGE_MODIFY} \<longrightarrow>
      aggregate_changes sha changes = Inl (ValueError ''Unrecognized changes''))"
proof (intro conjI impI)
  assume "\<exists>c \<in> set (flatten_changes changes).
      c_type c \<notin> {CHANGE_ADD, CHANGE_DELETE, CHANGE_MODIFY}"
  from collect_changes_unhandled [OF this]
  show "aggregate_changes sha changes = Inl (ValueError ''unhandled change type'')"
    by (simp add: aggregate_changes_def)
next
  assume a: "collect_changes sha [] (flatten_changes changes) = Inr by_uid \<and>
    (uid, grp) \<in> set by_uid \<and> length grp \<noteq> 1 \<and>
    set (map raw_type grp) \<noteq> {CHANGE_ADD, CHANGE_DELETE} \<and>
    set (map raw_type grp) \<noteq> {CHANGE_MODIFY}"
  then have f: "aggregate_group sha uid grp = Inl (ValueError ''Unrecognized changes'')"
    by (intro aggregate_group_unrecognized) simp_all
  from a have "(uid, grp) \<in> set (sort_key fst by_uid)" by simp
  from aggregate_groups_fail [OF this f]
  obtain e where e: "aggregate_groups sha [] (sort_key fst by_uid) = Inl e" by blast
  from aggregate_groups_error [OF e] e a
  show "aggregate_changes sha changes = Inl (ValueError ''Unrecognized changes'')"
    by (simp add: aggregate_changes_def)
qed

lemma two_adds_example_collect:
  "collect_changes ''commit-id'' []
     (flatten_changes
       [Single \<lparr>c_type = CHANGE_ADD, old_path = None,
                 new_path = Some ''a-0000000000000001.yaml''\<rparr>,
        Single \<lparr>c_type = CHANGE_ADD, old_path = None,
                 new_path = Some ''b-0000000000000001.yaml''\<rparr>])
   = Inr [(''0000000000000001'',
           [Raw3 CHANGE_ADD ''a-0000000000000001.yaml'' ''commit-id'',
            Raw3 CHANGE_ADD ''b-0000000000000001.yaml'' ''commit-id''])]"
  by (simp add: flatten_changes_def collect_change_def decode_path_def note_file_def
      endswith_def get_unique_id_def basename_def splitext_def)

theorem aggregate_changes_fails_fast_witness:
  "aggregate_changes ''commit-id''
     [Merged [\<lparr>c_type = CHANGE_RENAME, old_path = Some ''a-0000000000000001.yaml'',
               new_path = Some ''b-0000000000000001.yaml''\<rparr>]]
     = Inl (ValueError ''unhandled change type'') \<and>
   aggregate_changes ''commit-id''
     [Single \<lparr>c_type = CHANGE_ADD, old_path = None,
               new_path = Some ''a-0000000000000001.yaml''\<rparr>,
      Single \<lparr>c_type = CHANGE_ADD, old_path = None,
               new_path = Some ''b-0000000000000001.yaml''\<rparr>]
     = Inl (ValueError ''Unrecognized changes'')"
proof -
  let ?r = "\<lparr>c_type = CHANGE_RENAME, old_path = Some ''a-0000000000000001.yaml'',
             new_path = Some ''b-0000000000000001.yaml''\<rparr>"
  let ?grp = "[Raw3 CHANGE_ADD ''a-0000000000000001.yaml'' ''commit-id'',
               Raw3 CHANGE_ADD ''b-0000000000000001.yaml'' ''commit-id'']"
  have 1: "\<exists>c \<in> set (flatten_changes [Merged [?r]]).
      c_type c \<notin> {CHANGE_ADD, CHANGE_DELETE, CHANGE_MODIFY}"
    by (simp add: flatten_changes_def)
  have 2: "(''0000000000000001'', ?grp) \<in> set [(''0000000000000001'', ?grp)]"
    and 3: "length ?grp \<noteq> 1"
    and 4: "set (map raw_type ?grp) \<noteq> {CHANGE_ADD, CHANGE_DELETE}"
    and 5: "set (map raw_type ?grp) \<noteq> {CHANGE_MODIFY}"
    by auto
  show ?thesis
    using aggregate_changes_fails_fast [of "[Merged [?r]]" "''commit-id''"] 1
      aggregate_changes_fails_fast [of _ "''commit-id''", THEN conjunct2, rule_format,
        OF conjI [OF two_adds_example_collect conjI [OF 2 conjI [OF 3 conjI [OF 4 5]]]]]
    by blast
qed

subsection \<open>The current version\<close>

lemma current_version_loop_untagged:
  "untagged_first_parents r c cs \<Longrightarrow> current_version_loop r c n = Some (Inr ''0.0.0'')"
proof (induction cs arbitrary: c n)
  case Nil
  then show ?case by (subst current_version_loop.simps) simp
next
  case (Cons c' cs)
  from Cons.prems have t: "get_tags_on_commit r (commit_id c) = Inr []"
    and p: "parents c \<noteq> []"
    and g: "repo_getitem r (hd (parents c)) = Inr (Commit c')"
    and u: "untagged_first_parents r c' cs"
    by simp_all
  from p obtain q qs where q: "parents c = q # qs" by (cases "parents c") auto
  have "current_version_loop r c n = current_version_loop r c' (n + 1)"
    using t q g by (subst current_version_loop.simps) simp
  with Cons.IH [OF u] show ?case by simp
qed

text \<open>
  C10. When the walk along the first parents from the head of the branch reaches a commit
  without parents and meets no tagged commit, \<^verbatim>\<open>_get_current_version\<close> returns
  \<^verbatim>\<open>'0.0.0'\<close>.
\<close>

theorem current_version_default:
  assumes "get_ref r name = Inr sha" and "repo_getitem r sha = Inr (Commit c)"
    and "untagged_first_parents r c cs"
  shows "get_current_version r name = Some (Inr ''0.0.0'')"
  using assms current_version_loop_untagged [OF assms(3)]
  by (simp add: get_current_version_def)

lemma repo_side_tag_load:
  "load_tags repo_side_tag = Inr [(''b'', [(''1.0.0'', 20)])]"
  by (simp add: load_tags_def all_tags_def repo_side_tag_def startswith_def
      repo_getitem_def)

lemma repo_side_tag_tags:
  "get_tags_on_commit repo_side_tag ''m'' = Inr []"
  "get_tags_on_commit repo_side_tag ''a'' = Inr []"
  "get_tags_on_commit repo_side_tag ''b'' = Inr [''1.0.0'']"
  by (simp_all add: get_tags_on_commit_def tags_and_dates_def repo_side_tag_load
      dict_get_list_def)

theorem current_version_default_witness:
  "get_current_version repo_side_tag None = Some (Inr ''0.0.0'')"
proof -
  let ?m = "\<lparr>commit_id = ''m'', parents = [''a'', ''b''], commit_time = 30\<rparr>"
  let ?a = "\<lparr>commit_id = ''a'', parents = [], commit_time = 10\<rparr>"
  have r: "get_ref repo_side_tag None = Inr ''m''"
    by (simp add: get_ref_def refs_lookup_def repo_side_tag_def)
  have o: "repo_getitem repo_side_tag ''m'' = Inr (Commit ?m)"
    by (simp add: repo_getitem_def repo_side_tag_def)
  have oa: "repo_getitem repo_side_tag ''a'' = Inr (Commit ?a)"
    by (simp add: repo_getitem_def repo_side_tag_def)
  have u: "untagged_first_parents repo_side_tag ?m [?a]"
    by (simp add: repo_side_tag_tags oa)
  from current_version_default [OF r o u] show ?thesis .
qed

subsection \<open>Tags of a commit\<close>

lemma dict_get_list_append:
  "dict_get_list (dict_append d k v) s =
     (if s = k then dict_get_list d k @ [v] else dict_get_list d s)"
  by (induction d k v rule: dict_append.induct) (auto simp: dict_get_list_def)

lemma load_tags_loop_get:
  "load_tags_loop r acc ts = Inr m \<Longrightarrow>
   dict_get_list m s = dict_get_list acc s @ concat (map (filed_under r s) ts)"
proof (induction ts arbitrary: acc)
  case Nil
  then show ?case by simp
next
  case (Cons a ts)
  obtain tag tag_sha where a: "a = (tag, tag_sha)" by (cases a)
  show ?case
  proof (cases "objects r tag_sha")
    case None
    with Cons.prems a show ?thesis by (simp add: repo_getitem_def)
  next
    case (Some ob)
    show ?thesis
    proof (cases ob)
      case (Tag target t)
      with Some Cons.prems a
      have "load_tags_loop r (dict_append acc target (tag, t)) ts = Inr m"
        by (simp add: repo_getitem_def)
      from Cons.IH [OF this] show ?thesis
        using a Some Tag by (simp add: dict_get_list_append)
    next
      case (Commit c)
      with Some Cons.prems a
      have "load_tags_loop r (dict_append acc (commit_id c) (tag, commit_time c)) ts = Inr m"
        by (simp add: repo_getitem_def)
      from Cons.IH [OF this] show ?thesis
        using a Some Commit by (simp add: dict_get_list_append)
    next
      case Other
      with Some Cons.prems a show ?thesis by (simp add: repo_getitem_def)
    qed
  qed
qed

lemma tags_and_dates_eq:
  assumes "tags_and_dates r sha = Inr tds"
  shows "tds = sort_key snd (concat (map (filed_under r sha) (all_tags r)))"
proof -
  from assms obtain m where m: "load_tags r = Inr m"
    and t: "tds = sort_key snd (dict_get_list m sha)"
    by (auto simp: tags_and_dates_def split: sum.splits)
  from m have "load_tags_loop r [] (all_tags r) = Inr m" by (simp add: load_tags_def)
  from load_tags_loop_get [OF this, of sha] t show ?thesis
    by (simp add: dict_get_list_def)
qed

lemma filed_under_iff:
  "(tag, date) \<in> set (filed_under r s (tag', tag_sha)) \<longleftrightarrow>
     tag = tag' \<and>
     (objects r tag_sha = Some (Tag s date) \<or>
      (\<exists>c. objects r tag_sha = Some (Commit c) \<and> commit_id c = s \<and> date = commit_time c))"
proof (cases "objects r tag_sha")
  case None
  then show ?thesis by simp
next
  case (Some ob)
  then show ?thesis by (cases ob) auto
qed

text \<open>
  C2 (as amended). The tags of a commit are returned sorted by their date, oldest first,
  where the date of an annotated or signed tag is the time of the tag object itself
  (\<^verbatim>\<open>tag_time\<close>) and the date of a lightweight tag is the time of the commit; the tags
  returned are exactly the tags of \<^verbatim>\<open>_all_tags\<close> that mark the commit.
\<close>

theorem tags_on_commit_order:
  assumes "tags_and_dates r sha = Inr tds"
  shows "get_tags_on_commit r sha = Inr (map fst tds) \<and> sorted (map snd tds) \<and>
    (\<forall>tag date. (tag, date) \<in> set tds \<longleftrightarrow>
       (\<exists>tag_sha. (tag, tag_sha) \<in> set (all_tags r) \<and>
          (objects r tag_sha = Some (Tag sha date) \<or>
           (\<exists>c. objects r tag_sha = Some (Commit c) \<and> commit_id c = sha \<and>
              date = commit_time c))))"
proof (intro conjI allI)
  show "get_tags_on_commit r sha = Inr (map fst tds)"
    using assms by (simp add: get_tags_on_commit_def)
  note e = tags_and_dates_eq [OF assms]
  show "sorted (map snd tds)" unfolding e by (rule sorted_sort_key)
  fix tag date
  have "(tag, date) \<in> set tds \<longleftrightarrow>
      (\<exists>x \<in> set (all_tags r). (tag, date) \<in> set (filed_under r sha x))"
    unfolding e by simp
  also have "\<dots> \<longleftrightarrow> (\<exists>tag_sha. (tag, tag_sha) \<in> set (all_tags r) \<and>
          (objects r tag_sha = Some (Tag sha date) \<or>
           (\<exists>c. objects r tag_sha = Some (Commit c) \<and> commit_id c = sha \<and>
              date = commit_time c)))" (is "?L \<longleftrightarrow> ?R")
  proof
    assume ?L
    then obtain tag' tag_sha where m: "(tag', tag_sha) \<in> set (all_tags r)"
      and f: "(tag, date) \<in> set (filed_under r sha (tag', tag_sha))"
      by (metis surj_pair)
    from f [unfolded filed_under_iff] m show ?R by blast
  next
    assume ?R
    then obtain tag_sha where m: "(tag, tag_sha) \<in> set (all_tags r)"
      and o: "objects r tag_sha = Some (Tag sha date) \<or>
           (\<exists>c. objects r tag_sha = Some (Commit c) \<and> commit_id c = sha \<and>
              date = commit_time c)"
      by blast
    from o have "(tag, date) \<in> set (filed_under r sha (tag, tag_sha))"
      unfolding filed_under_iff by simp
    with m show ?L by blast
  qed
  finally show "(tag, date) \<in> set tds \<longleftrightarrow>
       (\<exists>tag_sha. (tag, tag_sha) \<in> set (all_tags r) \<and>
          (objects r tag_sha = Some (Tag sha date) \<or>
           (\<exists>c. objects r tag_sha = Some (Commit c) \<and> commit_id c = sha \<and>
              date = commit_time c)))" .
qed

lemma repo_two_tags_dates:
  "tags_and_dates repo_two_tags ''c1'' = Inr [(''1.0.1'', 100), (''1.0.0'', 300)]"
  by (simp add: tags_and_dates_def load_tags_def all_tags_def repo_two_tags_def
      startswith_def repo_getitem_def dict_get_list_def)

theorem tags_on_commit_order_witness:
  "get_tags_on_commit repo_two_tags ''c1'' = Inr [''1.0.1'', ''1.0.0''] \<and>
   sorted (map snd [(''1.0.1'', 100::int), (''1.0.0'', 300)])"
  using tags_on_commit_order [OF repo_two_tags_dates] by simp

text \<open>
  The annotated tag \<^verbatim>\<open>1.0.0\<close> of the commit made at time 100 is ordered by the time
  300 of its tag object, after the lightweight tag \<^verbatim>\<open>1.0.1\<close> of the same commit; by the
  time of the commit the two would tie and keep the order of the references.
\<close>

theorem tags_on_commit_tag_time_counterexample:
  "objects repo_two_tags ''t1'' = Some (Tag ''c1'' 300) \<and>
   objects repo_two_tags ''c1'' =
     Some (Commit \<lparr>commit_id = ''c1'', parents = [], commit_time = 100\<rparr>) \<and>
   all_tags repo_two_tags = [(''1.0.0'', ''t1''), (''1.0.1'', ''c1'')] \<and>
   tags_and_dates repo_two_tags ''c1'' = Inr [(''1.0.1'', 100), (''1.0.0'', 300)] \<and>
   get_tags_on_commit repo_two_tags ''c1'' = Inr [''1.0.1'', ''1.0.0'']"
  by (simp add: get_tags_on_commit_def repo_two_tags_dates)
    (simp add: repo_two_tags_def all_tags_def startswith_def)

text \<open>
  C7. On a branch whose first commit shared with \<^verbatim>\<open>master\<close> has no tag,
  \<^verbatim>\<open>_get_branch_base\<close> raises \<^verbatim>\<open>IndexError\<close> instead of returning \<^verbatim>\<open>None\<close>.
\<close>

theorem branch_base_untagged_raises:
  "get_branch_base repo_untagged_base (Some ''stable'') = Inl IndexError"
  by (simp add: get_branch_base_def get_walker_for_branch_def get_ref_def refs_lookup_def
      repo_getitem_def get_tags_on_commit_def tags_and_dates_def load_tags_def all_tags_def
      startswith_def dict_get_list_def repo_untagged_base_def)

subsection \<open>The topological traversal\<close>

lemma fold_all_entries:
  "fold (\<lambda>e all. all(commit_id e \<mapsto> e)) walk m
     = m ++ map_of (rev (map (\<lambda>e. (commit_id e, e)) walk))"
  by (induction walk arbitrary: m) (simp_all add: map_add_upd_left)

lemma all_entries_Some:
  assumes "distinct (map commit_id walk)"
  shows "all_entries walk s = Some e \<longleftrightarrow> e \<in> set walk \<and> commit_id e = s"
proof -
  have d: "distinct (map fst (rev (map (\<lambda>e. (commit_id e, e)) walk)))"
    using assms by (simp add: rev_map [symmetric] comp_def)
  have "all_entries walk = map_of (rev (map (\<lambda>e. (commit_id e, e)) walk))"
    by (simp add: all_entries_def fold_all_entries)
  then show ?thesis using map_of_eq_Some_iff [OF d, of s e] by auto
qed

lemma add_children_apply:
  "add_children e ch p = (if p \<in> set (parents e) then insert (commit_id e) (ch p) else ch p)"
proof -
  have "fold (\<lambda>p ch. ch(p := insert c (ch p))) ps ch p
      = (if p \<in> set ps then insert c (ch p) else ch p)" for c ps
    by (induction ps arbitrary: ch) auto
  then show ?thesis by (simp add: add_children_def)
qed

lemma fold_add_children:
  "fold add_children walk ch p
     = ch p \<union> {commit_id e | e. e \<in> set walk \<and> p \<in> set (parents e)}"
  by (induction walk arbitrary: ch) (auto simp: add_children_apply)

lemma children_of_iff:
  "c \<in> children_of walk p \<longleftrightarrow> (\<exists>e \<in> set walk. commit_id e = c \<and> p \<in> set (parents e))"
  by (auto simp: children_of_def fold_add_children)

lemma children_of_parent_rel: "c \<in> children_of walk p \<longleftrightarrow> (c, p) \<in> parent_rel walk"
  by (auto simp: children_of_iff parent_rel_def)

lemma set_push_parents: "set (push_parents ps todo) = set ps \<union> set todo"
  by (induction ps arbitrary: todo) auto

lemma distinct_push_parents: "distinct todo \<Longrightarrow> distinct (push_parents ps todo)"
  by (induction ps arbitrary: todo) auto

lemma children_first_emitted:
  "children_first ch out \<Longrightarrow> e \<in> set out \<Longrightarrow> ch (commit_id e) \<subseteq> commit_id ` set out"
  by (induction out) auto

lemma head_no_children:
  assumes "walk_of_dag head walk"
  shows "children_of walk head = {}"
proof (rule ccontr)
  assume "children_of walk head \<noteq> {}"
  then obtain c where c: "c \<in> children_of walk head" by blast
  then obtain e where e: "e \<in> set walk" "commit_id e = c" "head \<in> set (parents e)"
    by (auto simp: children_of_iff)
  from assms e have "(head, c) \<in> (parent_rel walk)\<^sup>*" unfolding walk_of_dag_def by blast
  moreover from c have "(c, head) \<in> parent_rel walk" by (simp add: children_of_parent_rel)
  ultimately have "(c, c) \<in> (parent_rel walk)\<^sup>+" by (meson rtrancl_into_trancl2)
  with assms show False unfolding walk_of_dag_def acyclic_def by blast
qed

lemma topo_inv_init:
  assumes "walk_of_dag head walk"
  shows "topo_inv head walk [head] {} []"
  using assms unfolding topo_inv_def walk_of_dag_def by simp

lemma topo_inv_skip:
  assumes w: "walk_of_dag head walk" and i: "topo_inv head walk (sha # rest) emitted out"
    and n: "\<not> children_of walk sha \<subseteq> emitted"
  shows "topo_inv head walk rest emitted out"
proof -
  have hs: "head \<noteq> sha" using head_no_children [OF w] n by auto
  from i have em: "emitted = commit_id ` set out"
    and dout: "distinct (map commit_id out)"
    and ow: "set out \<subseteq> set walk"
    and cf: "children_first (children_of walk) out"
    and dt: "distinct (sha # rest)"
    and tw: "set (sha # rest) \<subseteq> commit_id ` set walk"
    and te: "set (sha # rest) \<inter> emitted = {}"
    and par: "\<forall>e \<in> set out. \<forall>p \<in> set (parents e).
         p \<in> emitted \<or> p \<in> set (sha # rest) \<or> \<not> children_of walk p \<subseteq> emitted"
    and hd: "head \<in> emitted \<or> head \<in> set (sha # rest)"
    unfolding topo_inv_def by blast+
  have 5: "distinct rest" using dt by simp
  have 6: "set rest \<subseteq> commit_id ` set walk" using tw by simp
  have 7: "set rest \<inter> emitted = {}" using te by auto
  have 8: "\<forall>e \<in> set out. \<forall>p \<in> set (parents e).
         p \<in> emitted \<or> p \<in> set rest \<or> \<not> children_of walk p \<subseteq> emitted"
  proof (intro ballI)
    fix e p assume "e \<in> set out" and "p \<in> set (parents e)"
    with par have "p \<in> emitted \<or> p \<in> set (sha # rest)
        \<or> \<not> children_of walk p \<subseteq> emitted" by blast
    then show "p \<in> emitted \<or> p \<in> set rest \<or> \<not> children_of walk p \<subseteq> emitted"
      using n by (cases "p = sha") auto
  qed
  have 9: "head \<in> emitted \<or> head \<in> set rest" using hd hs by auto
  show ?thesis unfolding topo_inv_def using em dout ow cf 5 6 7 8 9 by blast
qed

lemma topo_inv_emit:
  assumes w: "walk_of_dag head walk" and i: "topo_inv head walk (sha # rest) emitted out"
    and a: "all_entries walk sha = Some entry"
    and c: "children_of walk sha \<subseteq> emitted"
  shows "topo_inv head walk (push_parents (parents entry) rest) (insert sha emitted)
           (entry # out)"
proof -
  from w have dw: "distinct (map commit_id walk)" unfolding walk_of_dag_def by simp
  from a dw have ew: "entry \<in> set walk" and eid: "commit_id entry = sha"
    by (simp_all add: all_entries_Some)
  from i have em: "emitted = commit_id ` set out"
    and dout: "distinct (map commit_id out)"
    and ow: "set out \<subseteq> set walk"
    and cf: "children_first (children_of walk) out"
    and dt: "distinct (sha # rest)"
    and tw: "set (sha # rest) \<subseteq> commit_id ` set walk"
    and te: "set (sha # rest) \<inter> emitted = {}"
    and par: "\<forall>e \<in> set out. \<forall>p \<in> set (parents e).
         p \<in> emitted \<or> p \<in> set (sha # rest) \<or> \<not> children_of walk p \<subseteq> emitted"
    and hd: "head \<in> emitted \<or> head \<in> set (sha # rest)"
    unfolding topo_inv_def by blast+
  from te have sne: "sha \<notin> emitted" by auto
  have closed: "\<And>q. q \<in> emitted \<Longrightarrow> children_of walk q \<subseteq> emitted"
    using children_first_emitted [OF cf] em by auto
  have pne: "\<And>p. p \<in> set (parents entry) \<Longrightarrow> p \<notin> insert sha emitted"
  proof
    fix p assume p: "p \<in> set (parents entry)" and "p \<in> insert sha emitted"
    from p ew eid have ch: "sha \<in> children_of walk p" by (auto simp: children_of_iff)
    from \<open>p \<in> insert sha emitted\<close> show False
    proof
      assume "p = sha"
      with ch c sne show False by auto
    next
      assume "p \<in> emitted"
      from closed [OF this] ch sne show False by auto
    qed
  qed
  have 1: "insert sha emitted = commit_id ` set (entry # out)" using em eid by simp
  have 2: "distinct (map commit_id (entry # out))" using dout sne em eid by auto
  have 3: "set (entry # out) \<subseteq> set walk" using ow ew by simp
  have 4: "children_first (children_of walk) (entry # out)" using cf c em eid by simp
  have 5: "distinct (push_parents (parents entry) rest)"
    using dt by (simp add: distinct_push_parents)
  have 6: "set (push_parents (parents entry) rest) \<subseteq> commit_id ` set walk"
    using tw w ew unfolding walk_of_dag_def by (auto simp: set_push_parents)
  have 7: "set (push_parents (parents entry) rest) \<inter> insert sha emitted = {}"
    using te dt pne by (auto simp: set_push_parents)
  have 8: "\<forall>e \<in> set (entry # out). \<forall>p \<in> set (parents e).
         p \<in> insert sha emitted \<or> p \<in> set (push_parents (parents entry) rest)
         \<or> \<not> children_of walk p \<subseteq> insert sha emitted"
  proof (intro ballI)
    fix e p assume e: "e \<in> set (entry # out)" and p: "p \<in> set (parents e)"
    show "p \<in> insert sha emitted \<or> p \<in> set (push_parents (parents entry) rest)
         \<or> \<not> children_of walk p \<subseteq> insert sha emitted"
    proof (cases "e = entry")
      case True
      with p show ?thesis by (simp add: set_push_parents)
    next
      case False
      with e have eo: "e \<in> set out" by simp
      from par eo p have "p \<in> emitted \<or> p \<in> set (sha # rest)
          \<or> \<not> children_of walk p \<subseteq> emitted" by blast
      then show ?thesis
      proof (elim disjE)
        assume "p \<in> emitted" then show ?thesis by simp
      next
        assume "p \<in> set (sha # rest)" then show ?thesis by (auto simp: set_push_parents)
      next
        assume nc: "\<not> children_of walk p \<subseteq> emitted"
        show ?thesis
        proof (cases "children_of walk p \<subseteq> insert sha emitted")
          case False
          then show ?thesis by simp
        next
          case True
          with nc have "sha \<in> children_of walk p" by auto
          then obtain e' where "e' \<in> set walk" "commit_id e' = sha" "p \<in> set (parents e')"
            by (auto simp: children_of_iff)
          with a dw have "p \<in> set (parents entry)"
            using all_entries_Some [OF dw, of sha e'] by simp
          then show ?thesis by (simp add: set_push_parents)
        qed
      qed
    qed
  qed
  have 9: "head \<in> insert sha emitted \<or> head \<in> set (push_parents (parents entry) rest)"
    using hd by (auto simp: set_push_parents)
  show ?thesis unfolding topo_inv_def using 1 2 3 4 5 6 7 8 9 by blast
qed

lemma all_entries_in_walk:
  assumes "distinct (map commit_id walk)" and "s \<in> commit_id ` set walk"
  shows "\<exists>e. all_entries walk s = Some e"
proof -
  from assms(2) obtain e where "e \<in> set walk" "commit_id e = s" by auto
  then have "all_entries walk s = Some e"
    using all_entries_Some [OF assms(1), of s e] by simp
  then show ?thesis by blast
qed

lemma topo_loop_total_aux:
  assumes w: "walk_of_dag head walk"
  shows "topo_inv head walk (fst s) (fst (snd s)) (snd (snd s)) \<longrightarrow>
    (\<exists>out'. topo_loop (all_entries walk) (children_of walk)
                (fst s) (fst (snd s)) (snd (snd s)) = Some (rev out', None) \<and>
             topo_inv head walk [] (commit_id ` set out') out')"
proof (induction s rule: wf_induct_rule [OF wf_measures
    [of "[\<lambda>s. card (commit_id ` set walk - fst (snd s)), \<lambda>s. length (fst s)]"]])
  case (1 s)
  obtain todo emitted out where s: "s = (todo, emitted, out)" by (cases s)
  from w have dw: "distinct (map commit_id walk)" unfolding walk_of_dag_def by simp
  show ?case
  proof
    assume "topo_inv head walk (fst s) (fst (snd s)) (snd (snd s))"
    then have i: "topo_inv head walk todo emitted out" by (simp add: s)
    show "\<exists>out'. topo_loop (all_entries walk) (children_of walk)
                (fst s) (fst (snd s)) (snd (snd s)) = Some (rev out', None) \<and>
             topo_inv head walk [] (commit_id ` set out') out'"
    proof (cases todo)
      case Nil
      have "topo_loop (all_entries walk) (children_of walk) [] emitted out
          = Some (rev out, None)"
        by (subst topo_loop.simps) simp
      moreover from i Nil have "topo_inv head walk [] (commit_id ` set out) out"
        unfolding topo_inv_def by auto
      ultimately show ?thesis using s Nil by auto
    next
      case (Cons sha rest)
      from i Cons have "sha \<in> commit_id ` set walk" unfolding topo_inv_def by auto
      from all_entries_in_walk [OF dw this] obtain entry
        where a: "all_entries walk sha = Some entry" by blast
      show ?thesis
      proof (cases "children_of walk sha \<subseteq> emitted")
        case True
        let ?s' = "(push_parents (parents entry) rest, insert sha emitted, entry # out)"
        from i Cons have i0: "topo_inv head walk (sha # rest) emitted out" by simp
        have i': "topo_inv head walk (push_parents (parents entry) rest)
            (insert sha emitted) (entry # out)"
          using topo_inv_emit [OF w i0 a True] .
        from i0 have "sha \<notin> emitted" and "sha \<in> commit_id ` set walk"
          unfolding topo_inv_def by auto
        then have "card (commit_id ` set walk - insert sha emitted)
            < card (commit_id ` set walk - emitted)"
          by (intro psubset_card_mono) auto
        then have "(?s', s) \<in> measures
            [\<lambda>s. card (commit_id ` set walk - fst (snd s)), \<lambda>s. length (fst s)]"
          by (simp add: s)
        from 1 [OF this] i' obtain out' where
          r: "topo_loop (all_entries walk) (children_of walk)
                (push_parents (parents entry) rest) (insert sha emitted) (entry # out)
              = Some (rev out', None)"
          and f: "topo_inv head walk [] (commit_id ` set out') out'"
          by auto
        have "topo_loop (all_entries walk) (children_of walk) (sha # rest) emitted out
            = topo_loop (all_entries walk) (children_of walk)
                (push_parents (parents entry) rest) (insert sha emitted) (entry # out)"
          using a True by (subst topo_loop.simps) auto
        with r f show ?thesis using s Cons by auto
      next
        case False
        let ?s' = "(rest, emitted, out)"
        from i Cons have i0: "topo_inv head walk (sha # rest) emitted out" by simp
        have i': "topo_inv head walk rest emitted out"
          using topo_inv_skip [OF w i0 False] .
        have "(?s', s) \<in> measures
            [\<lambda>s. card (commit_id ` set walk - fst (snd s)), \<lambda>s. length (fst s)]"
          by (simp add: s Cons)
        from 1 [OF this] i' obtain out' where
          r: "topo_loop (all_entries walk) (children_of walk) rest emitted out
              = Some (rev out', None)"
          and f: "topo_inv head walk [] (commit_id ` set out') out'"
          by auto
        have "topo_loop (all_entries walk) (children_of walk) (sha # rest) emitted out
            = topo_loop (all_entries walk) (children_of walk) rest emitted out"
          using a False by (subst topo_loop.simps) auto
        with r f show ?thesis using s Cons by auto
      qed
    qed
  qed
qed

lemma topo_loop_total:
  assumes "walk_of_dag head walk" and "topo_inv head walk todo emitted out"
  shows "\<exists>out'. topo_loop (all_entries walk) (children_of walk) todo emitted out
             = Some (rev out', None) \<and>
           topo_inv head walk [] (commit_id ` set out') out'"
  using topo_loop_total_aux [OF assms(1), of "(todo, emitted, out)"] assms(2) by simp

lemma finite_parent_rel: "finite (parent_rel walk)"
proof -
  have "parent_rel walk \<subseteq> commit_id ` set walk \<times> (\<Union>e \<in> set walk. set (parents e))"
    unfolding parent_rel_def by auto
  moreover have "finite (commit_id ` set walk \<times> (\<Union>e \<in> set walk. set (parents e)))"
    by simp
  ultimately show ?thesis by (rule finite_subset)
qed

lemma topo_inv_final_all:
  assumes w: "walk_of_dag head walk" and i: "topo_inv head walk [] emitted out"
  shows "n \<in> commit_id ` set walk \<longrightarrow> n \<in> emitted"
proof -
  from w have dw: "distinct (map commit_id walk)" unfolding walk_of_dag_def by simp
  from w have "acyclic (parent_rel walk)" unfolding walk_of_dag_def by simp
  with finite_parent_rel have wfr: "wf (parent_rel walk)" by (rule finite_acyclic_wf)
  from i have em: "emitted = commit_id ` set out" and ow: "set out \<subseteq> set walk"
    and par: "\<forall>e \<in> set out. \<forall>p \<in> set (parents e).
         p \<in> emitted \<or> \<not> children_of walk p \<subseteq> emitted"
    and hd: "head \<in> emitted"
    unfolding topo_inv_def by auto
  show ?thesis
  proof (induction n rule: wf_induct_rule [OF wfr])
    case (1 x)
    show ?case
    proof
      assume x: "x \<in> commit_id ` set walk"
      have ch: "children_of walk x \<subseteq> emitted"
      proof
        fix c assume c: "c \<in> children_of walk x"
        then have "(c, x) \<in> parent_rel walk" by (simp add: children_of_parent_rel)
        moreover from c have "c \<in> commit_id ` set walk" by (auto simp: children_of_iff)
        ultimately show "c \<in> emitted" using 1 by blast
      qed
      show "x \<in> emitted"
      proof (cases "x = head")
        case True
        with hd show ?thesis by simp
      next
        case False
        from x w have "(head, x) \<in> (parent_rel walk)\<^sup>*" unfolding walk_of_dag_def by auto
        with False obtain y where "(y, x) \<in> parent_rel walk"
          by (metis rtranclE)
        then have yc: "y \<in> children_of walk x" by (simp add: children_of_parent_rel)
        with ch have "y \<in> emitted" by auto
        with em obtain e where e: "e \<in> set out" "commit_id e = y" by auto
        from yc obtain e' where e': "e' \<in> set walk" "commit_id e' = y" "x \<in> set (parents e')"
          by (auto simp: children_of_iff)
        from e ow have "e \<in> set walk" by auto
        with e e' dw have "e = e'"
          by (metis distinct_map inj_onD)
        with e e' par have "x \<in> emitted \<or> \<not> children_of walk x \<subseteq> emitted" by blast
        with ch show ?thesis by simp
      qed
    qed
  qed
qed

lemma topo_inv_final_set:
  assumes w: "walk_of_dag head walk" and i: "topo_inv head walk [] emitted out"
  shows "set out = set walk"
proof
  from i show "set out \<subseteq> set walk" unfolding topo_inv_def by simp
  from w have dw: "distinct (map commit_id walk)" unfolding walk_of_dag_def by simp
  from i have em: "emitted = commit_id ` set out" and ow: "set out \<subseteq> set walk"
    unfolding topo_inv_def by auto
  show "set walk \<subseteq> set out"
  proof
    fix e assume e: "e \<in> set walk"
    then have "commit_id e \<in> emitted" using topo_inv_final_all [OF w i] by blast
    with em obtain e' where e': "e' \<in> set out" "commit_id e' = commit_id e" by auto
    with ow e dw have "e' = e" by (metis distinct_map inj_onD subsetD)
    with e' show "e \<in> set out" by simp
  qed
qed

lemma children_first_nth:
  assumes "children_first ch out" and "i < length out"
    and "c \<in> ch (commit_id (rev out ! i))"
  shows "\<exists>j < i. commit_id (rev out ! j) = c"
  using assms
proof (induction out arbitrary: i)
  case Nil
  then show ?case by simp
next
  case (Cons e out)
  show ?case
  proof (cases "i < length out")
    case True
    with Cons.prems have "c \<in> ch (commit_id (rev out ! i))" by (simp add: nth_append)
    from Cons.IH [OF _ True this] Cons.prems(1)
    obtain j where "j < i" "commit_id (rev out ! j) = c" by auto
    with True show ?thesis by (auto simp: nth_append intro!: exI [of _ j])
  next
    case False
    with Cons.prems(2) have il: "i = length out" by simp
    with Cons.prems(3) have "c \<in> ch (commit_id e)" by (simp add: nth_append)
    with Cons.prems(1) have "c \<in> commit_id ` set (rev out)" by auto
    then obtain j where "j < length out" "commit_id (rev out ! j) = c"
      by (auto simp: in_set_conv_nth simp del: set_rev)
    with il show ?thesis by (auto simp: nth_append intro!: exI [of _ j])
  qed
qed

lemma same_graph_same_maps:
  assumes "distinct (map commit_id walk)" and "distinct (map commit_id walk')"
    and "set walk' = set walk"
  shows "all_entries walk' = all_entries walk" and "children_of walk' = children_of walk"
proof -
  show "all_entries walk' = all_entries walk"
  proof
    fix s
    show "all_entries walk' s = all_entries walk s"
    proof (cases "all_entries walk s")
      case None
      then have "\<And>e. all_entries walk' s \<noteq> Some e"
        using all_entries_Some [OF assms(1), of s] all_entries_Some [OF assms(2), of s]
          assms(3) by auto
      with None show ?thesis by (cases "all_entries walk' s") auto
    next
      case (Some e)
      then show ?thesis
        using all_entries_Some [OF assms(1), of s e] all_entries_Some [OF assms(2), of s e]
          assms(3) by auto
    qed
  qed
  show "children_of walk' = children_of walk"
    using assms(3) by (intro ext set_eqI) (simp add: children_of_iff)
qed

lemma topo_loop_done: "topo_loop all children [] emitted out = Some (rev out, None)"
  by (subst topo_loop.simps) simp

lemma topo_loop_emit:
  "all sha = Some entry \<Longrightarrow> children sha \<subseteq> emitted \<Longrightarrow>
   topo_loop all children (sha # rest) emitted out =
     topo_loop all children (push_parents (parents entry) rest) (insert sha emitted)
       (entry # out)"
  by (subst topo_loop.simps) auto

lemma topo_loop_skip:
  "all sha = Some entry \<Longrightarrow> \<not> children sha \<subseteq> emitted \<Longrightarrow>
   topo_loop all children (sha # rest) emitted out = topo_loop all children rest emitted out"
  by (subst topo_loop.simps) auto

text \<open>
  C1. When the walker hands over the commits of an acyclic history, each once, that the
  head reaches, \<^verbatim>\<open>_topo_traversal\<close> ends without an error and yields every commit of the
  walk exactly once; a commit is yielded only after every commit of the walk that names
  it as a parent; and the sequence depends on the head and the set of commits only, not
  on the order in which the walker lists them.
\<close>

theorem topo_traversal_linearizes:
  assumes r: "get_ref r name = Inr head" and w: "walk_of_dag head (get_walker r head)"
  shows "\<exists>ys. topo_traversal r name = Some (ys, None) \<and> distinct ys \<and>
      set ys = set (get_walker r head) \<and>
      (\<forall>i < length ys. \<forall>e \<in> set (get_walker r head).
         commit_id (ys ! i) \<in> set (parents e) \<longrightarrow> (\<exists>j < i. ys ! j = e)) \<and>
      (\<forall>r' name'. get_ref r' name' = Inr head \<and>
         distinct (map commit_id (get_walker r' head)) \<and>
         set (get_walker r' head) = set (get_walker r head) \<longrightarrow>
         topo_traversal r' name' = Some (ys, None))"
proof -
  let ?walk = "get_walker r head"
  from w have dw: "distinct (map commit_id ?walk)" unfolding walk_of_dag_def by simp
  from topo_loop_total [OF w topo_inv_init [OF w]] obtain out where
    l: "topo_loop (all_entries ?walk) (children_of ?walk) [head] {} [] = Some (rev out, None)"
    and i: "topo_inv head ?walk [] (commit_id ` set out) out"
    by blast
  have t: "topo_traversal r name = Some (rev out, None)"
    using r l by (simp add: topo_traversal_def)
  from i have "distinct (map commit_id out)" unfolding topo_inv_def by simp
  then have d: "distinct (rev out)" by (simp add: distinct_map)
  have s: "set (rev out) = set ?walk" using topo_inv_final_set [OF w i] by simp
  from i have cf: "children_first (children_of ?walk) out" unfolding topo_inv_def by simp
  have o: "\<forall>i < length (rev out). \<forall>e \<in> set ?walk.
         commit_id (rev out ! i) \<in> set (parents e) \<longrightarrow> (\<exists>j < i. rev out ! j = e)"
  proof (intro allI impI ballI)
    fix i e
    assume il: "i < length (rev out)" and e: "e \<in> set ?walk"
      and p: "commit_id (rev out ! i) \<in> set (parents e)"
    from e p have "commit_id e \<in> children_of ?walk (commit_id (rev out ! i))"
      by (auto simp: children_of_iff)
    from children_first_nth [OF cf _ this] il
    obtain j where j: "j < i" "commit_id (rev out ! j) = commit_id e" by auto
    with il have "rev out ! j \<in> set (rev out)" by (intro nth_mem) simp
    with s have "rev out ! j \<in> set ?walk" by simp
    with j e dw have "rev out ! j = e" by (metis distinct_map inj_onD)
    with j show "\<exists>j < i. rev out ! j = e" by blast
  qed
  have g: "\<forall>r' name'. get_ref r' name' = Inr head \<and>
         distinct (map commit_id (get_walker r' head)) \<and>
         set (get_walker r' head) = set ?walk \<longrightarrow>
         topo_traversal r' name' = Some (rev out, None)"
  proof (intro allI impI)
    fix r' name'
    assume a: "get_ref r' name' = Inr head \<and>
         distinct (map commit_id (get_walker r' head)) \<and>
         set (get_walker r' head) = set ?walk"
    then have "all_entries (get_walker r' head) = all_entries ?walk"
      and "children_of (get_walker r' head) = children_of ?walk"
      using same_graph_same_maps [OF dw, of "get_walker r' head"] by simp_all
    with a l show "topo_traversal r' name' = Some (rev out, None)"
      by (simp add: topo_traversal_def)
  qed
  from t d s o g show ?thesis by blast
qed

lemma repo_merge_ref: "get_ref repo_merge None = Inr ''d''"
  by (simp add: get_ref_def refs_lookup_def repo_merge_def)

lemma repo_merge_walker: "get_walker repo_merge ''d'' = merge_walk"
  by (simp add: repo_merge_def)

lemma parent_rel_Union:
  "parent_rel walk = (\<Union>e \<in> set walk. (\<lambda>p. (commit_id e, p)) ` set (parents e))"
  unfolding parent_rel_def by auto

lemma children_of_filter:
  "children_of walk p = commit_id ` set (filter (\<lambda>e. p \<in> set (parents e)) walk)"
  by (auto simp: children_of_iff)

lemma merge_walk_parent_rel:
  "parent_rel merge_walk =
     {(''d'', ''c''), (''d'', ''x''), (''c'', ''b''), (''x'', ''a''), (''b'', ''a'')}"
  by (auto simp: parent_rel_Union merge_walk_def)

lemma merge_walk_dag: "walk_of_dag ''d'' merge_walk"
proof -
  let ?R = "parent_rel merge_walk"
  have e: "(''d'', ''c'') \<in> ?R" "(''d'', ''x'') \<in> ?R" "(''c'', ''b'') \<in> ?R"
    "(''x'', ''a'') \<in> ?R" "(''b'', ''a'') \<in> ?R"
    by (simp_all add: merge_walk_parent_rel)
  have rd: "(''d'', ''d'') \<in> ?R\<^sup>*" by simp
  have rc: "(''d'', ''c'') \<in> ?R\<^sup>*" using e(1) by (rule r_into_rtrancl)
  have rx: "(''d'', ''x'') \<in> ?R\<^sup>*" using e(2) by (rule r_into_rtrancl)
  have rb: "(''d'', ''b'') \<in> ?R\<^sup>*" using rc e(3) by (rule rtrancl_into_rtrancl)
  have ra: "(''d'', ''a'') \<in> ?R\<^sup>*" using rx e(4) by (rule rtrancl_into_rtrancl)
  define rank :: "string \<Rightarrow> nat" where
    "rank s = (if s = ''d'' then 3 else if s = ''c'' then 2 else if s = ''a'' then 0 else 1)"
    for s
  have ac: "acyclic ?R"
  proof (rule acyclicI_order [where f = rank])
    fix a b assume "(a, b) \<in> ?R"
    then show "rank b < rank a"
      unfolding merge_walk_parent_rel by (auto simp: rank_def)
  qed
  have 1: "distinct (map commit_id merge_walk)" by (simp add: merge_walk_def)
  have 2: "''d'' \<in> commit_id ` set merge_walk" by (simp add: merge_walk_def)
  have 3: "\<forall>e \<in> set merge_walk. set (parents e) \<subseteq> commit_id ` set merge_walk"
    by (simp add: merge_walk_def)
  have 4: "\<forall>e \<in> set merge_walk. (''d'', commit_id e) \<in> ?R\<^sup>*"
    using rd rc rx rb ra by (simp add: merge_walk_def)
  show ?thesis unfolding walk_of_dag_def using 1 2 3 4 ac by blast
qed

lemma merge_walk_all:
  "all_entries merge_walk ''d'' = Some \<lparr>commit_id = ''d'', parents = [''c'', ''x''], commit_time = 50\<rparr>"
  "all_entries merge_walk ''c'' = Some \<lparr>commit_id = ''c'', parents = [''b''], commit_time = 40\<rparr>"
  "all_entries merge_walk ''x'' = Some \<lparr>commit_id = ''x'', parents = [''a''], commit_time = 30\<rparr>"
  "all_entries merge_walk ''b'' = Some \<lparr>commit_id = ''b'', parents = [''a''], commit_time = 20\<rparr>"
  "all_entries merge_walk ''a'' = Some \<lparr>commit_id = ''a'', parents = [], commit_time = 10\<rparr>"
  by (simp_all add: all_entries_def merge_walk_def)

lemma merge_walk_children:
  "children_of merge_walk ''d'' = {}"
  "children_of merge_walk ''c'' = {''d''}"
  "children_of merge_walk ''x'' = {''d''}"
  "children_of merge_walk ''b'' = {''c''}"
  "children_of merge_walk ''a'' = {''x'', ''b''}"
  by (simp_all add: children_of_filter merge_walk_def)

lemma merge_walk_topo:
  "topo_loop (all_entries merge_walk) (children_of merge_walk) [''d''] {} [] =
     Some ([\<lparr>commit_id = ''d'', parents = [''c'', ''x''], commit_time = 50\<rparr>,
            \<lparr>commit_id = ''x'', parents = [''a''], commit_time = 30\<rparr>,
            \<lparr>commit_id = ''c'', parents = [''b''], commit_time = 40\<rparr>,
            \<lparr>commit_id = ''b'', parents = [''a''], commit_time = 20\<rparr>,
            \<lparr>commit_id = ''a'', parents = [], commit_time = 10\<rparr>], None)"
  by (simp add: topo_loop_done topo_loop_emit topo_loop_skip merge_walk_all
      merge_walk_children)

theorem topo_traversal_linearizes_witness:
  "topo_traversal repo_merge None =
     Some ([\<lparr>commit_id = ''d'', parents = [''c'', ''x''], commit_time = 50\<rparr>,
            \<lparr>commit_id = ''x'', parents = [''a''], commit_time = 30\<rparr>,
            \<lparr>commit_id = ''c'', parents = [''b''], commit_time = 40\<rparr>,
            \<lparr>commit_id = ''b'', parents = [''a''], commit_time = 20\<rparr>,
            \<lparr>commit_id = ''a'', parents = [], commit_time = 10\<rparr>], None) \<and>
   (\<exists>ys. topo_traversal repo_merge None = Some (ys, None) \<and> distinct ys \<and>
      set ys = set merge_walk)"
proof -
  have w: "walk_of_dag ''d'' (get_walker repo_merge ''d'')"
    by (simp add: repo_merge_walker merge_walk_dag)
  from topo_traversal_linearizes [OF repo_merge_ref w]
  obtain ys where "topo_traversal repo_merge None = Some (ys, None)" and "distinct ys"
    and "set ys = set (get_walker repo_merge ''d'')"
    by blast
  then show ?thesis
    by (simp add: topo_traversal_def repo_merge_ref repo_merge_walker merge_walk_topo)
qed

subsection \<open>Combining the pre-releases\<close>







lemma is_digit_not_dot: "is_digit c \<Longrightarrow> c \<noteq> CHR ''.''"
  by (auto simp: is_digit_def)






lemma pre_release_search_examples:
  "pre_release_search ''1.0.0.0rc1'' = Some ''0rc1''"
  "pre_release_search ''2.0.0.0b2'' = Some ''0b2''"
  "pre_release_search ''1.0.0'' = None"
  "pre_release_search ''2.0.0'' = None"
  "pre_release_search ''1.0.0.rc1'' = None"
  by (simp_all add: pre_release_search_def pre_release_group_def is_digit_def)



subsection \<open>The claim on pre-release collapsing\<close>




subsection \<open>The scan of the history\<close>












































lemma invert_earliest_keys: "map fst (invert_earliest ln fat es) = map fst fat"
proof (induction es arbitrary: fat)
  case Nil
  then show ?case by simp
next
  case (Cons a es)
  obtain u v where a: "a = (u, v)" by (cases a)
  show ?case
  proof (cases "ln u")
    case None
    with a Cons.IH show ?thesis by simp
  next
    case (Some x)
    obtain base s where x: "x = (base, s)" by (cases x)
    show ?thesis
    proof (cases "v \<in> set (map fst fat)")
      case True
      with a Some x Cons.IH [of "dict_append fat v (base, s)"] show ?thesis
        by (simp add: dict_append_keys)
    next
      case False
      with a Some x Cons.IH [of fat] show ?thesis by simp
    qed
  qed
qed




lemma dict_set_member:
  "(k', v') \<in> set (dict_set d k v) \<Longrightarrow> (k', v') \<in> set d \<or> (k' = k \<and> v' = v)"
  by (induction d k v rule: dict_set.induct) (auto split: if_splits)












subsection \<open>The claim on deleted and re-added notes\<close>















subsection \<open>The order of the notes of a version\<close>

lemma trim_loop_sorted:
  "\<forall>(v, b) \<in> set trimmed. sorted b \<Longrightarrow>
   \<forall>(v, b) \<in> set (trim_loop earliest files_and_tags trimmed ovs). sorted b"
proof (induction ovs arbitrary: trimmed)
  case Nil
  then show ?case by simp
next
  case (Cons ov ovs)
  let ?t = "dict_set trimmed ov (sort (dict_get_list files_and_tags ov))"
  have s: "\<forall>(v, b) \<in> set ?t. sorted b"
    using Cons.prems dict_set_member [of _ _ trimmed ov "sort (dict_get_list files_and_tags ov)"]
    by fastforce
  show ?case
  proof (cases "dict_get_list files_and_tags ov = []")
    case True
    with Cons.IH [OF Cons.prems] show ?thesis by simp
  next
    case False
    with Cons.IH [OF s] s show ?thesis by (simp add: Let_def del: sort_key_simps)
  qed
qed

lemma two_notes_ref: "get_ref repo_two_notes None = Inr ''c1''"
  by (simp add: get_ref_def refs_lookup_def repo_two_notes_def)

lemma two_notes_load:
  "load_tags repo_two_notes = Inr [(''c1'', [(''1.0.0'', 10)])]"
  by (simp add: load_tags_def all_tags_def repo_two_notes_def two_notes_walk_def
      startswith_def repo_getitem_def)

lemma two_notes_tags: "get_tags_on_commit repo_two_notes ''c1'' = Inr [''1.0.0'']"
  by (simp add: get_tags_on_commit_def tags_and_dates_def two_notes_load dict_get_list_def)

lemma two_notes_walker: "get_walker repo_two_notes ''c1'' = two_notes_walk"
  by (simp add: repo_two_notes_def)

lemma two_notes_branch: "get_tags_on_branch repo_two_notes None = Inr [''1.0.0'']"
  by (simp add: get_tags_on_branch_def get_walker_for_branch_def two_notes_ref
      two_notes_walker two_notes_walk_def two_notes_tags)

lemma two_notes_current: "get_current_version repo_two_notes None = Some (Inr ''1.0.0'')"
proof -
  have o: "repo_getitem repo_two_notes ''c1''
      = Inr (Commit \<lparr>commit_id = ''c1'', parents = [], commit_time = 10\<rparr>)"
    by (simp add: repo_getitem_def repo_two_notes_def two_notes_walk_def)
  have "current_version_loop repo_two_notes
      \<lparr>commit_id = ''c1'', parents = [], commit_time = 10\<rparr> 0 = Some (Inr ''1.0.0'')"
    by (subst current_version_loop.simps) (simp add: two_notes_tags)
  with o show ?thesis by (simp add: get_current_version_def two_notes_ref)
qed

lemma two_notes_topo:
  "topo_traversal repo_two_notes None = Some (two_notes_walk, None)"
proof -
  have a: "all_entries two_notes_walk ''c1''
      = Some \<lparr>commit_id = ''c1'', parents = [], commit_time = 10\<rparr>"
    by (simp add: all_entries_def two_notes_walk_def)
  have c: "children_of two_notes_walk ''c1'' = {}"
    by (simp add: children_of_filter two_notes_walk_def)
  have "topo_loop (all_entries two_notes_walk) (children_of two_notes_walk) [''c1''] {} []
      = Some (two_notes_walk, None)"
    by (simp add: topo_loop_done topo_loop_emit a c) (simp add: two_notes_walk_def)
  then show ?thesis
    by (simp add: topo_traversal_def two_notes_ref two_notes_walker)
qed

lemma two_notes_aggregate:
  "aggregate_changes ''c1'' (changes_two_notes ''c1'') =
     Inr [Change4 ''0000000000000001'' CHANGE_ADD ''b-0000000000000001.yaml'' ''c1'',
          Change4 ''0000000000000002'' CHANGE_ADD ''a-0000000000000002.yaml'' ''c1'']"
  by (simp add: aggregate_changes_def changes_two_notes_def flatten_changes_def
      collect_change_def decode_path_def note_file_def endswith_def get_unique_id_def
      basename_def splitext_def aggregate_group_def)

lemma two_notes_scan:
  "scan_commits repo_two_notes changes_two_notes ''releasenotes/notes'' None None
     (initial_state ''1.0.0'') two_notes_walk = Inr (two_notes_final, False)"
  by (simp add: two_notes_walk_def process_commit_def two_notes_tags two_notes_aggregate
      process_change_def record_name_def Let_def initial_state_def two_notes_final_def
      os_path_join_def truthy_def)

lemma two_notes_files:
  "files_and_tags_of two_notes_final =
     [(''1.0.0'', [(''releasenotes/notes/b-0000000000000001.yaml'', ''c1''),
                   (''releasenotes/notes/a-0000000000000002.yaml'', ''c1'')])]"
  by (simp add: files_and_tags_of_def two_notes_final_def)

lemma two_notes_sort:
  "sort [(''releasenotes/notes/b-0000000000000001.yaml'', ''c1''),
         (''releasenotes/notes/a-0000000000000002.yaml'', ''c1'')]
   = [(''releasenotes/notes/a-0000000000000002.yaml'', ''c1''),
      (''releasenotes/notes/b-0000000000000001.yaml'', ''c1'')]"
  by (simp add: less_eq_prod_def)


lemma two_notes_result:
  "get_notes_by_version repo_two_notes conf_default changes_two_notes =
     Some (Inr [(''1.0.0'', [(''releasenotes/notes/a-0000000000000002.yaml'', ''c1''),
                            (''releasenotes/notes/b-0000000000000001.yaml'', ''c1'')])])"
proof -
  have c: "collapse [''1.0.0''] (files_and_tags_of two_notes_final)
      = files_and_tags_of two_notes_final"
    by (simp add: collapse_def two_notes_files canonical_ver_def pre_release_search_examples)
  have t: "trim_loop None (files_and_tags_of two_notes_final) [] [''1.0.0'']
      = [(''1.0.0'', [(''releasenotes/notes/a-0000000000000002.yaml'', ''c1''),
                     (''releasenotes/notes/b-0000000000000001.yaml'', ''c1'')])]"
    unfolding two_notes_files
    by (simp add: dict_get_list_def truthy_def two_notes_sort del: sort_key_simps)
  show ?thesis
    by (simp add: get_notes_by_version_def post_process_def conf_default_def two_notes_branch truthy_def
        two_notes_current two_notes_topo two_notes_scan c t del: trim_loop.simps)
qed

text \<open>
  Claim C3. The lists of the result are sorted as pairs of a file name and a commit, that
  is, by the path of the file, and not by the identifier of the note: in the result for
  a commit that adds \<^verbatim>\<open>b-0000000000000001.yaml\<close> and \<^verbatim>\<open>a-0000000000000002.yaml\<close> the
  note of the identifier \<^verbatim>\<open>0000000000000002\<close> comes first, so the list is not in the order
  of the identifiers.
\<close>

theorem notes_sorted_by_path:
  "get_notes_by_version repo_two_notes conf_default changes_two_notes =
     Some (Inr [(''1.0.0'', [(''releasenotes/notes/a-0000000000000002.yaml'', ''c1''),
                            (''releasenotes/notes/b-0000000000000001.yaml'', ''c1'')])]) \<and>
   map (\<lambda>(base, sha). get_unique_id base)
     [(''releasenotes/notes/a-0000000000000002.yaml'', ''c1''),
      (''releasenotes/notes/b-0000000000000001.yaml'', ''c1'')]
     = [''0000000000000002'', ''0000000000000001''] \<and>
   \<not> sorted_by_identifier
     [(''releasenotes/notes/a-0000000000000002.yaml'', ''c1''),
      (''releasenotes/notes/b-0000000000000001.yaml'', ''c1'')]"
proof -
  have m: "map (\<lambda>(base, sha). get_unique_id base)
     [(''releasenotes/notes/a-0000000000000002.yaml'', ''c1''),
      (''releasenotes/notes/b-0000000000000001.yaml'', ''c1'')]
     = [''0000000000000002'', ''0000000000000001'']"
    by (simp add: get_unique_id_def basename_def splitext_def)
  have "\<not> sorted [''0000000000000002'', ''0000000000000001'']" by simp
  with m two_notes_result show ?thesis unfolding sorted_by_identifier_def by simp
qed

end
